theory Spec2Isabelle
  imports
    Main
    "HOL-Library.Multiset"
    "HOL-Library.Char_ord"
    "HOL-Library.List_Lexorder"
    "HOL-Library.Word"
begin

unbundle bit_operations_syntax

chapter \<open>The synchronisation engine of digital-signage\<close>

text \<open>
  A shallow embedding of \<^verbatim>\<open>src/main.go\<close>: the local inventory scan (\<^verbatim>\<open>scanMedia\<close>), the
  fetcher (\<^verbatim>\<open>downloadFromS3\<close>) and the reconciliation cycle (\<^verbatim>\<open>syncFromS3\<close>), over explicit
  models of what they call: Go's \<^verbatim>\<open>sort.Slice\<close>, the file system operations of \<^verbatim>\<open>os\<close> and
  \<^verbatim>\<open>path/filepath\<close>, and the two S3 requests \<^verbatim>\<open>ListObjectsV2\<close> and \<^verbatim>\<open>GetObject\<close>.

  Strings are byte strings (\<open>char list\<close>), compared byte by byte as Go compares them
  (the lexicographic order of \<open>List_Lexorder\<close> over \<open>Char_ord\<close>). Go's \<^verbatim>\<open>int\<close> indices are
  natural numbers: every index the program computes is non-negative and far below the
  word size.
\<close>

section \<open>Go's \<^verbatim>\<open>sort.Slice\<close>\<close>

text \<open>
  \<^verbatim>\<open>scanMedia\<close> orders the inventory with
  \<^verbatim>\<open>sort.Slice(mediaFiles, func(i, j int) bool { return mediaFiles[i].Name < mediaFiles[j].Name })\<close>.
  The standard library (package \<^verbatim>\<open>sort\<close>, \<^verbatim>\<open>zsortfunc.go\<close>, Go 1.19 and later) implements it
  as a pattern-defeating quicksort over the two operations \<^verbatim>\<open>data.Less(i, j)\<close> and
  \<^verbatim>\<open>data.Swap(i, j)\<close>; its documentation says that the sort is not guaranteed to be stable.
  The functions below follow \<^verbatim>\<open>zsortfunc.go\<close> function by function and keep its names; every
  \<^verbatim>\<open>for\<close> loop is a recursive function named after the function it belongs to. The slice is
  a list, \<open>key\<close> is the field the comparison reads (\<^verbatim>\<open>Name\<close> in \<^verbatim>\<open>scanMedia\<close>).
\<close>

definition Less :: "('a \<Rightarrow> 'k::linorder) \<Rightarrow> 'a list \<Rightarrow> nat \<Rightarrow> nat \<Rightarrow> bool" where
  "Less key xs i j = (key (xs ! i) < key (xs ! j))"

definition Swap :: "'a list \<Rightarrow> nat \<Rightarrow> nat \<Rightarrow> 'a list" where
  "Swap xs i j = xs[i := xs ! j, j := xs ! i]"

text \<open>
  \<^verbatim>\<open>insertionSort_func(data, a, b)\<close>:
  \<^verbatim>\<open>for i := a + 1; i < b; i++ { for j := i; j > a && data.Less(j, j-1); j-- { data.Swap(j, j-1) } }\<close>
\<close>

function insertionSort_inner :: "('a \<Rightarrow> 'k::linorder) \<Rightarrow> 'a list \<Rightarrow> nat \<Rightarrow> nat \<Rightarrow> 'a list" where
  "insertionSort_inner key xs a j =
     (if j > a \<and> Less key xs j (j - 1)
      then insertionSort_inner key (Swap xs j (j - 1)) a (j - 1)
      else xs)"
  by pat_completeness auto
termination
  by (relation "measure (\<lambda>(key, xs, a, j). j)") auto

declare insertionSort_inner.simps [simp del]

function insertionSort_outer :: "('a \<Rightarrow> 'k::linorder) \<Rightarrow> 'a list \<Rightarrow> nat \<Rightarrow> nat \<Rightarrow> nat \<Rightarrow> 'a list" where
  "insertionSort_outer key xs a b i =
     (if i < b
      then insertionSort_outer key (insertionSort_inner key xs a i) a b (i + 1)
      else xs)"
  by pat_completeness auto
termination
  by (relation "measure (\<lambda>(key, xs, a, b, i). b - i)") auto

declare insertionSort_outer.simps [simp del]

definition insertionSort_func :: "('a \<Rightarrow> 'k::linorder) \<Rightarrow> 'a list \<Rightarrow> nat \<Rightarrow> nat \<Rightarrow> 'a list" where
  "insertionSort_func key xs a b = insertionSort_outer key xs a b (a + 1)"

text \<open>
  \<^verbatim>\<open>siftDown_func(data, lo, hi, first)\<close> and \<^verbatim>\<open>heapSort_func(data, a, b)\<close>: the fallback when
  the recursion budget \<open>limit\<close> is used up. The two counting loops of \<^verbatim>\<open>heapSort_func\<close> run
  \<open>i\<close> from \<open>(hi - 1) / 2\<close> and from \<open>hi - 1\<close> down to \<open>0\<close>.
\<close>

function siftDown_func :: "('a \<Rightarrow> 'k::linorder) \<Rightarrow> 'a list \<Rightarrow> nat \<Rightarrow> nat \<Rightarrow> nat \<Rightarrow> 'a list" where
  "siftDown_func key xs root hi first =
     (let child = 2 * root + 1 in
      if child \<ge> hi then xs
      else
        let child = (if child + 1 < hi \<and> Less key xs (first + child) (first + child + 1)
                     then child + 1 else child) in
        if \<not> Less key xs (first + root) (first + child) then xs
        else siftDown_func key (Swap xs (first + root) (first + child)) child hi first)"
  by pat_completeness auto
termination
  by (relation "measure (\<lambda>(key, xs, root, hi, first). hi - root)") (auto simp: Let_def)

declare siftDown_func.simps [simp del]

fun heapSort_build :: "('a \<Rightarrow> 'k::linorder) \<Rightarrow> 'a list \<Rightarrow> nat \<Rightarrow> nat \<Rightarrow> nat \<Rightarrow> 'a list" where
  "heapSort_build key xs hi first 0 = siftDown_func key xs 0 hi first"
| "heapSort_build key xs hi first (Suc i) =
     heapSort_build key (siftDown_func key xs (Suc i) hi first) hi first i"

fun heapSort_pop :: "('a \<Rightarrow> 'k::linorder) \<Rightarrow> 'a list \<Rightarrow> nat \<Rightarrow> nat \<Rightarrow> 'a list" where
  "heapSort_pop key xs first 0 = xs"
| "heapSort_pop key xs first (Suc i) =
     heapSort_pop key (siftDown_func key (Swap xs first (first + i)) 0 i first) first i"

definition heapSort_func :: "('a \<Rightarrow> 'k::linorder) \<Rightarrow> 'a list \<Rightarrow> nat \<Rightarrow> nat \<Rightarrow> 'a list" where
  "heapSort_func key xs a b =
     (let first = a; hi = b - a;
          xs1 = heapSort_build key xs hi first ((hi - 1) div 2)
      in heapSort_pop key xs1 first hi)"


text \<open>
  \<^verbatim>\<open>partition_func\<close> does one quicksort partition around \<^verbatim>\<open>data[pivot]\<close>. Its two
  inner scans are \<open>partition_up\<close> (\<^verbatim>\<open>for i <= j && data.Less(i, a) { i++ }\<close>) and
  \<open>partition_down\<close> (\<^verbatim>\<open>for i <= j && !data.Less(j, a) { j-- }\<close>). Indices are natural
  numbers; \<open>i\<close> starts at \<open>a + 1\<close>, so the downward scan stops before \<open>j\<close> could pass
  below zero.
\<close>

function partition_up :: "('a \<Rightarrow> 'k::linorder) \<Rightarrow> 'a list \<Rightarrow> nat \<Rightarrow> nat \<Rightarrow> nat \<Rightarrow> nat" where
  "partition_up key xs a i j =
     (if i \<le> j \<and> Less key xs i a then partition_up key xs a (i + 1) j else i)"
  by pat_completeness auto
termination
  by (relation "measure (\<lambda>(key, xs, a, i, j). Suc j - i)") auto

fun partition_down :: "('a \<Rightarrow> 'k::linorder) \<Rightarrow> 'a list \<Rightarrow> nat \<Rightarrow> nat \<Rightarrow> nat \<Rightarrow> nat" where
  "partition_down key xs a i 0 = 0"
| "partition_down key xs a i (Suc j) =
     (if i \<le> Suc j \<and> \<not> Less key xs (Suc j) a then partition_down key xs a i j else Suc j)"

declare partition_up.simps [simp del]

lemma partition_up_ge: "i \<le> partition_up key xs a i j"
proof (induction key xs a i j rule: partition_up.induct)
  case (1 key xs a i j)
  show ?case
  proof (cases "i \<le> j \<and> Less key xs i a")
    case True
    then have "i + 1 \<le> partition_up key xs a (i + 1) j" using 1 by blast
    then show ?thesis using True by (subst partition_up.simps) auto
  next
    case False
    then show ?thesis by (subst partition_up.simps) auto
  qed
qed

lemma partition_down_le: "partition_down key xs a i j \<le> j"
  by (induction j) auto

function partition_loop :: "('a \<Rightarrow> 'k::linorder) \<Rightarrow> 'a list \<Rightarrow> nat \<Rightarrow> nat \<Rightarrow> nat \<Rightarrow> 'a list \<times> nat \<times> nat" where
  "partition_loop key xs a i j =
     (let i = partition_up key xs a i j;
          j = partition_down key xs a i j
      in if i > j then (xs, i, j)
         else partition_loop key (Swap xs i j) a (i + 1) (j - 1))"
  by pat_completeness auto
termination
proof (relation "measure (\<lambda>(key, xs, a, i, j). Suc j - i)", goal_cases)
  case 1
  show ?case by simp
next
  case (2 key xs a i j i' j')
  have "i \<le> i'" using 2 partition_up_ge by metis
  moreover have "j' \<le> j" using 2 partition_down_le by metis
  ultimately show ?case using 2(3) by simp
qed

definition partition_func :: "('a \<Rightarrow> 'k::linorder) \<Rightarrow> 'a list \<Rightarrow> nat \<Rightarrow> nat \<Rightarrow> nat \<Rightarrow> 'a list \<times> nat \<times> bool" where
  "partition_func key xs a b pivot =
     (let xs = Swap xs a pivot;
          i = a + 1; j = b - 1;
          i = partition_up key xs a i j;
          j = partition_down key xs a i j
      in if i > j then (Swap xs j a, j, True)
         else
           let xs = Swap xs i j; i = i + 1; j = j - 1;
               (xs, i, j) = partition_loop key xs a i j
           in (Swap xs j a, j, False))"


declare partition_loop.simps [simp del]

text \<open>
  \<^verbatim>\<open>partitionEqual_func\<close> splits a range that holds no element smaller than the pivot into
  the elements equal to the pivot and the elements greater than it.
\<close>

function partitionEqual_up :: "('a \<Rightarrow> 'k::linorder) \<Rightarrow> 'a list \<Rightarrow> nat \<Rightarrow> nat \<Rightarrow> nat \<Rightarrow> nat" where
  "partitionEqual_up key xs a i j =
     (if i \<le> j \<and> \<not> Less key xs a i then partitionEqual_up key xs a (i + 1) j else i)"
  by pat_completeness auto
termination
  by (relation "measure (\<lambda>(key, xs, a, i, j). Suc j - i)") auto

declare partitionEqual_up.simps [simp del]

fun partitionEqual_down :: "('a \<Rightarrow> 'k::linorder) \<Rightarrow> 'a list \<Rightarrow> nat \<Rightarrow> nat \<Rightarrow> nat \<Rightarrow> nat" where
  "partitionEqual_down key xs a i 0 = 0"
| "partitionEqual_down key xs a i (Suc j) =
     (if i \<le> Suc j \<and> Less key xs a (Suc j) then partitionEqual_down key xs a i j else Suc j)"

lemma partitionEqual_up_ge: "i \<le> partitionEqual_up key xs a i j"
proof (induction key xs a i j rule: partitionEqual_up.induct)
  case (1 key xs a i j)
  show ?case
  proof (cases "i \<le> j \<and> \<not> Less key xs a i")
    case True
    then have "i + 1 \<le> partitionEqual_up key xs a (i + 1) j" using 1 by blast
    then show ?thesis using True by (subst partitionEqual_up.simps) auto
  next
    case False
    then show ?thesis by (subst partitionEqual_up.simps) auto
  qed
qed

lemma partitionEqual_down_le: "partitionEqual_down key xs a i j \<le> j"
  by (induction j) auto

function partitionEqual_loop :: "('a \<Rightarrow> 'k::linorder) \<Rightarrow> 'a list \<Rightarrow> nat \<Rightarrow> nat \<Rightarrow> nat \<Rightarrow> 'a list \<times> nat" where
  "partitionEqual_loop key xs a i j =
     (let i = partitionEqual_up key xs a i j;
          j = partitionEqual_down key xs a i j
      in if i > j then (xs, i)
         else partitionEqual_loop key (Swap xs i j) a (i + 1) (j - 1))"
  by pat_completeness auto
termination
proof (relation "measure (\<lambda>(key, xs, a, i, j). Suc j - i)", goal_cases)
  case 1
  show ?case by simp
next
  case (2 key xs a i j i' j')
  have "i \<le> i'" using 2 partitionEqual_up_ge by metis
  moreover have "j' \<le> j" using 2 partitionEqual_down_le by metis
  ultimately show ?case using 2(3) by simp
qed

declare partitionEqual_loop.simps [simp del]

definition partitionEqual_func :: "('a \<Rightarrow> 'k::linorder) \<Rightarrow> 'a list \<Rightarrow> nat \<Rightarrow> nat \<Rightarrow> nat \<Rightarrow> 'a list \<times> nat" where
  "partitionEqual_func key xs a b pivot =
     (let xs = Swap xs a pivot;
          i = a + 1; j = b - 1
      in partitionEqual_loop key xs a i j)"

text \<open>
  \<^verbatim>\<open>partialInsertionSort_func\<close> tries to finish an almost sorted range with at most five
  shifts (\<^verbatim>\<open>maxSteps\<close>), and never shifts on ranges shorter than fifty elements
  (\<^verbatim>\<open>shortestShifting\<close>).
\<close>

function partialInsertionSort_scan :: "('a \<Rightarrow> 'k::linorder) \<Rightarrow> 'a list \<Rightarrow> nat \<Rightarrow> nat \<Rightarrow> nat" where
  "partialInsertionSort_scan key xs b i =
     (if i < b \<and> \<not> Less key xs i (i - 1) then partialInsertionSort_scan key xs b (i + 1) else i)"
  by pat_completeness auto
termination
  by (relation "measure (\<lambda>(key, xs, b, i). b - i)") auto

declare partialInsertionSort_scan.simps [simp del]

fun partialInsertionSort_left :: "('a \<Rightarrow> 'k::linorder) \<Rightarrow> 'a list \<Rightarrow> nat \<Rightarrow> 'a list" where
  "partialInsertionSort_left key xs 0 = xs"
| "partialInsertionSort_left key xs (Suc j) =
     (if \<not> Less key xs (Suc j) j then xs
      else partialInsertionSort_left key (Swap xs (Suc j) j) j)"

function partialInsertionSort_right :: "('a \<Rightarrow> 'k::linorder) \<Rightarrow> 'a list \<Rightarrow> nat \<Rightarrow> nat \<Rightarrow> 'a list" where
  "partialInsertionSort_right key xs b j =
     (if j < b
      then (if \<not> Less key xs j (j - 1) then xs
            else partialInsertionSort_right key (Swap xs j (j - 1)) b (j + 1))
      else xs)"
  by pat_completeness auto
termination
  by (relation "measure (\<lambda>(key, xs, b, j). b - j)") auto

declare partialInsertionSort_right.simps [simp del]

fun partialInsertionSort_steps ::
  "('a \<Rightarrow> 'k::linorder) \<Rightarrow> 'a list \<Rightarrow> nat \<Rightarrow> nat \<Rightarrow> nat \<Rightarrow> nat \<Rightarrow> 'a list \<times> bool" where
  "partialInsertionSort_steps key xs a b i 0 = (xs, False)"
| "partialInsertionSort_steps key xs a b i (Suc n) =
     (let i = partialInsertionSort_scan key xs b i in
      if i = b then (xs, True)
      else if b - a < 50 then (xs, False)
      else
        let xs = Swap xs i (i - 1);
            xs = (if i - a \<ge> 2 then partialInsertionSort_left key xs (i - 1) else xs);
            xs = (if b - i \<ge> 2 then partialInsertionSort_right key xs b (i + 1) else xs)
        in partialInsertionSort_steps key xs a b i n)"

definition partialInsertionSort_func :: "('a \<Rightarrow> 'k::linorder) \<Rightarrow> 'a list \<Rightarrow> nat \<Rightarrow> nat \<Rightarrow> 'a list \<times> bool" where
  "partialInsertionSort_func key xs a b = partialInsertionSort_steps key xs a b (a + 1) 5"

text \<open>
  \<^verbatim>\<open>breakPatterns_func\<close> swaps three elements near the middle with pseudo-random positions,
  drawn from a 64-bit xorshift generator seeded with the length of the range.
\<close>

fun bits_Len :: "nat \<Rightarrow> nat" where
  "bits_Len n = (if n = 0 then 0 else Suc (bits_Len (n div 2)))"

declare bits_Len.simps [simp del]

definition xorshift_Next :: "64 word \<Rightarrow> 64 word" where
  "xorshift_Next r =
     (let r = r XOR (push_bit 13 r);
          r = r XOR (drop_bit 7 r);
          r = r XOR (push_bit 17 r)
      in r)"

definition nextPowerOfTwo :: "nat \<Rightarrow> nat" where
  "nextPowerOfTwo len = 2 ^ bits_Len len"

function breakPatterns_loop ::
  "'a list \<Rightarrow> nat \<Rightarrow> nat \<Rightarrow> nat \<Rightarrow> nat \<Rightarrow> 64 word \<Rightarrow> nat \<Rightarrow> 'a list" where
  "breakPatterns_loop xs a len modulus idx random i =
     (if i < 3 then
        let random = xorshift_Next random;
            other = unat (random AND (word_of_nat modulus - 1));
            other = (if other \<ge> len then other - len else other)
        in breakPatterns_loop (Swap xs (idx - 1 + i) (a + other)) a len modulus idx random (i + 1)
      else xs)"
  by pat_completeness auto
termination
  by (relation "measure (\<lambda>(xs, a, len, modulus, idx, random, i). 3 - i)") auto

declare breakPatterns_loop.simps [simp del]

definition breakPatterns_func :: "'a list \<Rightarrow> nat \<Rightarrow> nat \<Rightarrow> 'a list" where
  "breakPatterns_func xs a b =
     (let len = b - a in
      if len \<ge> 8 then
        let random = word_of_nat len;
            modulus = nextPowerOfTwo len;
            idx = a + (len div 4) * 2 - 1
        in breakPatterns_loop xs a len modulus idx random 0
      else xs)"

text \<open>
  \<^verbatim>\<open>choosePivot_func\<close> picks the median of three (or of three medians of three, from fifty
  elements on) and counts the swaps a sorting network would have done, as a hint of the
  order of the range.
\<close>

datatype sortedHint = unknownHint | increasingHint | decreasingHint

definition order2_func :: "('a \<Rightarrow> 'k::linorder) \<Rightarrow> 'a list \<Rightarrow> nat \<Rightarrow> nat \<Rightarrow> nat \<Rightarrow> nat \<times> nat \<times> nat" where
  "order2_func key xs a b swaps =
     (if Less key xs b a then (b, a, swaps + 1) else (a, b, swaps))"

definition median_func :: "('a \<Rightarrow> 'k::linorder) \<Rightarrow> 'a list \<Rightarrow> nat \<Rightarrow> nat \<Rightarrow> nat \<Rightarrow> nat \<Rightarrow> nat \<times> nat" where
  "median_func key xs a b c swaps =
     (let (a, b, swaps) = order2_func key xs a b swaps;
          (b, c, swaps) = order2_func key xs b c swaps;
          (a, b, swaps) = order2_func key xs a b swaps
      in (b, swaps))"

definition medianAdjacent_func :: "('a \<Rightarrow> 'k::linorder) \<Rightarrow> 'a list \<Rightarrow> nat \<Rightarrow> nat \<Rightarrow> nat \<times> nat" where
  "medianAdjacent_func key xs a swaps = median_func key xs (a - 1) a (a + 1) swaps"

definition choosePivot_func :: "('a \<Rightarrow> 'k::linorder) \<Rightarrow> 'a list \<Rightarrow> nat \<Rightarrow> nat \<Rightarrow> nat \<times> sortedHint" where
  "choosePivot_func key xs a b =
     (let l = b - a;
          swaps = 0;
          i = a + l div 4 * 1;
          j = a + l div 4 * 2;
          k = a + l div 4 * 3;
          (j, swaps) =
            (if l \<ge> 8 then
               let (i, j, k, swaps) =
                     (if l \<ge> 50 then
                        let (i, swaps) = medianAdjacent_func key xs i swaps;
                            (j, swaps) = medianAdjacent_func key xs j swaps;
                            (k, swaps) = medianAdjacent_func key xs k swaps
                        in (i, j, k, swaps)
                      else (i, j, k, swaps))
               in median_func key xs i j k swaps
             else (j, swaps))
      in if swaps = 0 then (j, increasingHint)
         else if swaps = 4 * 3 then (j, decreasingHint)
         else (j, unknownHint))"

text \<open>\<^verbatim>\<open>reverseRange_func(data, a, b)\<close> reverses the range in place.\<close>

function reverseRange_loop :: "'a list \<Rightarrow> nat \<Rightarrow> nat \<Rightarrow> 'a list" where
  "reverseRange_loop xs i j =
     (if i < j then reverseRange_loop (Swap xs i j) (i + 1) (j - 1) else xs)"
  by pat_completeness auto
termination
  by (relation "measure (\<lambda>(xs, i, j). j - i)") auto

declare reverseRange_loop.simps [simp del]

definition reverseRange_func :: "'a list \<Rightarrow> nat \<Rightarrow> nat \<Rightarrow> 'a list" where
  "reverseRange_func xs a b = reverseRange_loop xs a (b - 1)"


text \<open>
  The bounds on the index a partition returns, which make the main loop terminate whatever
  the comparison answers.
\<close>

lemma partition_up_le: "partition_up key xs a i j \<le> max i (Suc j)"
proof (induction key xs a i j rule: partition_up.induct)
  case (1 key xs a i j)
  show ?case
  proof (cases "i \<le> j \<and> Less key xs i a")
    case True
    then have "partition_up key xs a (i + 1) j \<le> max (i + 1) (Suc j)" using 1 by simp
    then show ?thesis using True by (subst partition_up.simps) auto
  next
    case False
    then show ?thesis by (subst partition_up.simps) auto
  qed
qed

lemma partition_down_ge: "i \<le> j + 2 \<Longrightarrow> i \<le> partition_down key xs a i j + 2"
  by (induction j) auto

lemma partition_down_ge1: "i \<le> Suc j \<Longrightarrow> i \<le> Suc (partition_down key xs a i j)"
  by (induction j) auto

lemma partition_loop_range:
  "partition_loop key xs a i j = (xs', i', j') \<Longrightarrow> i \<le> j + 2 \<Longrightarrow> j' \<le> j \<and> i \<le> j' + 2"
proof (induction key xs a i j arbitrary: xs' i' j' rule: partition_loop.induct)
  case (1 key xs a i j)
  define i1 where "i1 = partition_up key xs a i j"
  define j1 where "j1 = partition_down key xs a i1 j"
  have b1: "i \<le> i1" "j1 \<le> j" "i1 \<le> max i (Suc j)"
    using partition_up_ge partition_up_le partition_down_le by (auto simp: i1_def j1_def)
  then have b2: "i1 \<le> j1 + 2"
    unfolding j1_def using 1(3) by (intro partition_down_ge) auto
  show ?case
  proof (cases "i1 > j1")
    case True
    then have "j' = j1"
      using 1(2) unfolding partition_loop.simps[of key xs a i j] Let_def i1_def[symmetric] j1_def[symmetric]
      by auto
    then show ?thesis using b1 b2 by auto
  next
    case False
    then have eq: "partition_loop key (Swap xs i1 j1) a (i1 + 1) (j1 - 1) = (xs', i', j')"
      using 1(2) unfolding partition_loop.simps[of key xs a i j] Let_def i1_def[symmetric] j1_def[symmetric]
      by auto
    have "j' \<le> j1 - 1 \<and> i1 + 1 \<le> j' + 2"
      by (rule 1(1)[OF i1_def j1_def _ eq]) (use False in auto)
    then show ?thesis using b1 False by auto
  qed
qed

lemma partition_func_mid:
  assumes "partition_func key xs a b pivot = (xs', mid, ap)" "a < b"
  shows "a \<le> mid \<and> mid < b"
proof -
  define xs1 where "xs1 = Swap xs a pivot"
  define i1 where "i1 = partition_up key xs1 a (a + 1) (b - 1)"
  define j1 where "j1 = partition_down key xs1 a i1 (b - 1)"
  have i1: "a + 1 \<le> i1" "i1 \<le> Suc (b - 1)"
    using partition_up_ge[of "a + 1" key xs1 a "b - 1"] partition_up_le[of key xs1 a "a + 1" "b - 1"] assms(2)
    by (auto simp: i1_def)
  have j1: "j1 \<le> b - 1" "i1 \<le> Suc j1"
    using partition_down_le[of key xs1 a i1 "b - 1"] partition_down_ge1[of i1 "b - 1" key xs1 a] i1(2)
    by (auto simp: j1_def)
  show ?thesis
  proof (cases "i1 > j1")
    case True
    then have "mid = j1" using assms(1)
      unfolding partition_func_def Let_def xs1_def[symmetric] i1_def[symmetric] j1_def[symmetric]
      by auto
    then show ?thesis using i1 j1 assms(2) by auto
  next
    case False
    obtain xs2 i2 j2 where pl: "partition_loop key (Swap xs1 i1 j1) a (i1 + 1) (j1 - 1) = (xs2, i2, j2)"
      by (metis prod_cases3)
    have "mid = j2" using assms(1) False pl
      unfolding partition_func_def Let_def xs1_def[symmetric] i1_def[symmetric] j1_def[symmetric]
      by auto
    moreover have "j2 \<le> j1 - 1 \<and> i1 + 1 \<le> j2 + 2"
      by (rule partition_loop_range[OF pl]) (use False in auto)
    ultimately show ?thesis using i1 j1 assms(2) by auto
  qed
qed

lemma partitionEqual_loop_ge:
  "partitionEqual_loop key xs a i j = (xs', i') \<Longrightarrow> i \<le> i'"
proof (induction key xs a i j arbitrary: xs' i' rule: partitionEqual_loop.induct)
  case (1 key xs a i j)
  define i1 where "i1 = partitionEqual_up key xs a i j"
  define j1 where "j1 = partitionEqual_down key xs a i1 j"
  have b1: "i \<le> i1" using partitionEqual_up_ge by (auto simp: i1_def)
  show ?case
  proof (cases "i1 > j1")
    case True
    then have "i' = i1" using 1(2)
      unfolding partitionEqual_loop.simps[of key xs a i j] Let_def i1_def[symmetric] j1_def[symmetric]
      by auto
    then show ?thesis using b1 by simp
  next
    case False
    then have eq: "partitionEqual_loop key (Swap xs i1 j1) a (i1 + 1) (j1 - 1) = (xs', i')"
      using 1(2)
      unfolding partitionEqual_loop.simps[of key xs a i j] Let_def i1_def[symmetric] j1_def[symmetric]
      by auto
    have "i1 + 1 \<le> i'"
      by (rule 1(1)[OF i1_def j1_def _ eq]) (use False in auto)
    then show ?thesis using b1 by auto
  qed
qed

lemma partitionEqual_func_mid:
  "partitionEqual_func key xs a b pivot = (xs', mid) \<Longrightarrow> a < mid"
  unfolding partitionEqual_func_def Let_def
  by (drule partitionEqual_loop_ge) simp

text \<open>
  \<^verbatim>\<open>pdqsort_func(data, a, b, limit)\<close>. The Go function is a loop over the local variables
  \<open>a\<close>, \<open>b\<close>, \<open>limit\<close>, \<open>wasBalanced\<close> and \<open>wasPartitioned\<close> that calls itself on the
  shorter side of each partition: \<open>pdqsort_loop\<close> is one iteration of that loop, and
  \<open>pdqsort_func\<close> enters it with both flags set.
\<close>

lemma pdqsort_termination_partitionEqual:
  "(xs', mid) = partitionEqual_func key xs a b pivot \<Longrightarrow> \<not> b - a \<le> 12 \<Longrightarrow> b - mid < b - a"
  using partitionEqual_func_mid[of key xs a b pivot xs' mid] by auto

lemma pdqsort_termination_partition:
  "(xs', y) = partition_func key xs a b pivot \<Longrightarrow> (mid, ap) = y \<Longrightarrow> \<not> b - a \<le> 12 \<Longrightarrow>
     mid - a < b - a \<and> b - (mid + 1) < b - a"
proof -
  assume a: "(xs', y) = partition_func key xs a b pivot" "(mid, ap) = y" "\<not> b - a \<le> 12"
  then have "a < b" by arith
  moreover from a have "partition_func key xs a b pivot = (xs', mid, ap)" by simp
  ultimately have "a \<le> mid \<and> mid < b" by (rule partition_func_mid[rotated])
  then show ?thesis by arith
qed

function pdqsort_loop ::
  "('a \<Rightarrow> 'k::linorder) \<Rightarrow> 'a list \<Rightarrow> nat \<Rightarrow> nat \<Rightarrow> nat \<Rightarrow> bool \<Rightarrow> bool \<Rightarrow> 'a list" where
  "pdqsort_loop key xs a b limit wasBalanced wasPartitioned =
     (let len = b - a in
      if len \<le> 12 then insertionSort_func key xs a b
      else if limit = 0 then heapSort_func key xs a b
      else
        let (xs, limit) =
              (if \<not> wasBalanced then (breakPatterns_func xs a b, limit - 1) else (xs, limit));
            (pivot, hint) = choosePivot_func key xs a b;
            (xs, pivot, hint) =
              (if hint = decreasingHint
               then (reverseRange_func xs a b, (b - 1) - (pivot - a), increasingHint)
               else (xs, pivot, hint));
            (xs, sorted) =
              (if wasBalanced \<and> wasPartitioned \<and> hint = increasingHint
               then partialInsertionSort_func key xs a b
               else (xs, False))
        in if sorted then xs
           else if a > 0 \<and> \<not> Less key xs (a - 1) pivot then
             let (xs, mid) = partitionEqual_func key xs a b pivot
             in pdqsort_loop key xs mid b limit wasBalanced wasPartitioned
           else
             let (xs, mid, alreadyPartitioned) = partition_func key xs a b pivot;
                 wasPartitioned = alreadyPartitioned;
                 leftLen = mid - a; rightLen = b - mid;
                 balanceThreshold = len div 8
             in if leftLen < rightLen then
                  let wasBalanced = (leftLen \<ge> balanceThreshold);
                      xs = pdqsort_loop key xs a mid limit True True
                  in pdqsort_loop key xs (mid + 1) b limit wasBalanced wasPartitioned
                else
                  let wasBalanced = (rightLen \<ge> balanceThreshold);
                      xs = pdqsort_loop key xs (mid + 1) b limit True True
                  in pdqsort_loop key xs a mid limit wasBalanced wasPartitioned)"
  by pat_completeness auto
termination
  apply (relation "measure (\<lambda>(key, xs, a, b, limit, wb, wp). b - a)")
  apply simp
  apply (simp_all only: in_measure prod.case)
  subgoal by (drule pdqsort_termination_partitionEqual) auto
  subgoal by (drule (1) pdqsort_termination_partition) auto
  subgoal by (drule (1) pdqsort_termination_partition) auto
  subgoal by (drule (1) pdqsort_termination_partition) auto
  subgoal by (drule (1) pdqsort_termination_partition) auto
  done

declare pdqsort_loop.simps [simp del]

definition pdqsort_func :: "('a \<Rightarrow> 'k::linorder) \<Rightarrow> 'a list \<Rightarrow> nat \<Rightarrow> nat \<Rightarrow> nat \<Rightarrow> 'a list" where
  "pdqsort_func key xs a b limit = pdqsort_loop key xs a b limit True True"

text \<open>
  \<^verbatim>\<open>sort.Slice(x, less)\<close>:
  \<^verbatim>\<open>length := rv.Len(); limit := bits.Len(uint(length)); pdqsort_func(lessSwap{less, swap}, 0, length, limit)\<close>
\<close>

definition sort_Slice :: "('a \<Rightarrow> 'k::linorder) \<Rightarrow> 'a list \<Rightarrow> 'a list" where
  "sort_Slice key xs = (let len = length xs; limit = bits_Len len in pdqsort_func key xs 0 len limit)"

section \<open>The local file system\<close>

text \<open>
  The program reaches the disk through \<^verbatim>\<open>os.Stat\<close>, \<^verbatim>\<open>os.MkdirAll\<close>, \<^verbatim>\<open>os.Create\<close>,
  \<^verbatim>\<open>io.Copy\<close>, \<^verbatim>\<open>os.Remove\<close> and \<^verbatim>\<open>filepath.Walk\<close>. The disk is a tree: a regular file with its
  bytes, a directory with its entries (and whether it can be read), or an entry that
  cannot be examined (\<^verbatim>\<open>lstat\<close> on it fails). A path is the list of its components from
  the root of the tree, which is how a cleaned path string is read; two cleaned path
  strings are equal exactly when their component lists are.

  All file system errors are \<^verbatim>\<open>*fs.PathError\<close> values in Go; the program only tests them
  against \<^verbatim>\<open>nil\<close>, so one constructor stands for them.
\<close>

type_synonym path = "string list"

type_synonym bytes = string

datatype error = SkipDir | SkipAll | PathError | S3Error | CopyError | NilPointer

datatype fsnode = File bytes | Dir bool "(string \<times> fsnode) list" | Inaccessible

fun is_Dir :: "fsnode \<Rightarrow> bool" where
  "is_Dir (Dir r es) = True"
| "is_Dir n = False"

fun fs_lookup :: "fsnode \<Rightarrow> path \<Rightarrow> fsnode option"
and fs_lookup_in :: "(string \<times> fsnode) list \<Rightarrow> string \<Rightarrow> path \<Rightarrow> fsnode option" where
  "fs_lookup n [] = Some n"
| "fs_lookup (Dir r es) (c # cs) = fs_lookup_in es c cs"
| "fs_lookup (File b) (c # cs) = None"
| "fs_lookup Inaccessible (c # cs) = None"
| "fs_lookup_in [] c cs = None"
| "fs_lookup_in ((name, n) # es) c cs = (if name = c then fs_lookup n cs else fs_lookup_in es c cs)"

text \<open>
  \<open>alter f fs p\<close> applies \<open>f\<close> to the entry at \<open>p\<close> in its parent directory: \<open>f\<close> sees the
  entry (or \<open>None\<close> when the name is free) and answers with the new entry, with its
  removal, or with failure. The parent must exist and be a directory.
\<close>

fun alter :: "(fsnode option \<Rightarrow> fsnode option option) \<Rightarrow> fsnode \<Rightarrow> path \<Rightarrow> fsnode option"
and alter_in :: "(fsnode option \<Rightarrow> fsnode option option) \<Rightarrow> (string \<times> fsnode) list \<Rightarrow> string \<Rightarrow> path
                  \<Rightarrow> (string \<times> fsnode) list option" where
  "alter f n [] = None"
| "alter f (Dir r es) (c # cs) = map_option (Dir r) (alter_in f es c cs)"
| "alter f (File b) (c # cs) = None"
| "alter f Inaccessible (c # cs) = None"
| "alter_in f [] c cs =
     (if cs = [] then
        (case f None of
           None \<Rightarrow> None
         | Some None \<Rightarrow> Some []
         | Some (Some n') \<Rightarrow> Some [(c, n')])
      else None)"
| "alter_in f ((name, n) # es) c cs =
     (if name = c then
        (if cs = [] then
           (case f (Some n) of
              None \<Rightarrow> None
            | Some None \<Rightarrow> Some es
            | Some (Some n') \<Rightarrow> Some ((name, n') # es))
         else map_option (\<lambda>n'. (name, n') # es) (alter f n cs))
      else map_option (\<lambda>es'. (name, n) # es') (alter_in f es c cs))"

text \<open>\<^verbatim>\<open>os.MkdirAll\<close> creates the missing directories of a path, and fails on a component
  that exists and is not a directory.\<close>

fun mkdir_chain :: "path \<Rightarrow> fsnode" where
  "mkdir_chain [] = Dir True []"
| "mkdir_chain (c # cs) = Dir True [(c, mkdir_chain cs)]"

fun mkdirAll :: "fsnode \<Rightarrow> path \<Rightarrow> fsnode option"
and mkdirAll_in :: "(string \<times> fsnode) list \<Rightarrow> string \<Rightarrow> path \<Rightarrow> (string \<times> fsnode) list option" where
  "mkdirAll (Dir r es) [] = Some (Dir r es)"
| "mkdirAll (File b) cs = None"
| "mkdirAll Inaccessible cs = None"
| "mkdirAll (Dir r es) (c # cs) = map_option (Dir r) (mkdirAll_in es c cs)"
| "mkdirAll_in [] c cs = Some [(c, mkdir_chain cs)]"
| "mkdirAll_in ((name, n) # es) c cs =
     (if name = c then map_option (\<lambda>n'. (name, n') # es) (mkdirAll n cs)
      else map_option (\<lambda>es'. (name, n) # es') (mkdirAll_in es c cs))"

definition os_Stat :: "fsnode \<Rightarrow> path \<Rightarrow> error + fsnode" where
  "os_Stat disk p =
     (case fs_lookup disk p of
        None \<Rightarrow> Inl PathError
      | Some Inaccessible \<Rightarrow> Inl PathError
      | Some n \<Rightarrow> Inr n)"

definition os_MkdirAll :: "fsnode \<Rightarrow> path \<Rightarrow> error + fsnode" where
  "os_MkdirAll disk p = (case mkdirAll disk p of None \<Rightarrow> Inl PathError | Some disk' \<Rightarrow> Inr disk')"

text \<open>\<^verbatim>\<open>os.Create\<close> creates the file or truncates it; the parent directory must exist.\<close>

fun create_entry :: "fsnode option \<Rightarrow> fsnode option option" where
  "create_entry None = Some (Some (File []))"
| "create_entry (Some (File b)) = Some (Some (File []))"
| "create_entry (Some n) = None"

definition os_Create :: "fsnode \<Rightarrow> path \<Rightarrow> error + fsnode" where
  "os_Create disk p = (case alter create_entry disk p of None \<Rightarrow> Inl PathError | Some disk' \<Rightarrow> Inr disk')"

text \<open>Writing to an open file appends the bytes to it.\<close>

fun write_entry :: "bytes \<Rightarrow> fsnode option \<Rightarrow> fsnode option option" where
  "write_entry d (Some (File b)) = Some (Some (File (b @ d)))"
| "write_entry d n = None"

definition file_Write :: "fsnode \<Rightarrow> path \<Rightarrow> bytes \<Rightarrow> error + fsnode" where
  "file_Write disk p d =
     (case alter (write_entry d) disk p of None \<Rightarrow> Inl PathError | Some disk' \<Rightarrow> Inr disk')"

text \<open>\<^verbatim>\<open>os.Remove\<close> removes a file or an empty directory.\<close>

fun remove_entry :: "fsnode option \<Rightarrow> fsnode option option" where
  "remove_entry (Some (File b)) = Some None"
| "remove_entry (Some (Dir r [])) = Some None"
| "remove_entry n = None"

definition os_Remove :: "fsnode \<Rightarrow> path \<Rightarrow> error + fsnode" where
  "os_Remove disk p = (case alter remove_entry disk p of None \<Rightarrow> Inl PathError | Some disk' \<Rightarrow> Inr disk')"

subsection \<open>\<^verbatim>\<open>path/filepath\<close> and \<^verbatim>\<open>strings\<close>\<close>

text \<open>
  \<^verbatim>\<open>filepath.Join(dir, elem)\<close> is \<^verbatim>\<open>Clean(dir + "/" + elem)\<close>: empty components and \<^verbatim>\<open>.\<close> are
  dropped, \<^verbatim>\<open>..\<close> removes the component before it (and nothing at the root). \<open>dir\<close> is a
  cleaned rooted path, so cleaning goes on from it over the components of \<open>elem\<close>.
\<close>

fun split_sep :: "string \<Rightarrow> string \<Rightarrow> string list" where
  "split_sep cur [] = [rev cur]"
| "split_sep cur (c # cs) =
     (if c = CHR ''/'' then rev cur # split_sep [] cs else split_sep (c # cur) cs)"

definition clean_step :: "path \<Rightarrow> string \<Rightarrow> path" where
  "clean_step acc c =
     (if c = [] \<or> c = ''.'' then acc
      else if c = ''..'' then butlast acc
      else acc @ [c])"

definition filepath_Join :: "path \<Rightarrow> string \<Rightarrow> path" where
  "filepath_Join dir elem = foldl clean_step dir (split_sep [] elem)"

definition filepath_Dir :: "path \<Rightarrow> path" where
  "filepath_Dir p = butlast p"

definition filepath_Base :: "path \<Rightarrow> string" where
  "filepath_Base p = (if p = [] then ''/'' else last p)"

text \<open>\<^verbatim>\<open>filepath.Ext\<close>: the suffix of the last component from its last dot on, or nothing.\<close>

fun ext_scan :: "string \<Rightarrow> string \<Rightarrow> string" where
  "ext_scan [] suffix = []"
| "ext_scan (c # rcs) suffix = (if c = CHR ''.'' then c # suffix else ext_scan rcs (c # suffix))"

definition filepath_Ext :: "path \<Rightarrow> string" where
  "filepath_Ext p = (if p = [] then [] else ext_scan (rev (last p)) [])"

text \<open>\<^verbatim>\<open>filepath.Rel(base, targ)\<close> for a target below \<open>base\<close>, which every walked path is.\<close>

definition filepath_Rel :: "path \<Rightarrow> path \<Rightarrow> path" where
  "filepath_Rel base targ = drop (length base) targ"

fun filepath_ToSlash :: "path \<Rightarrow> string" where
  "filepath_ToSlash [] = ''.''"
| "filepath_ToSlash [c] = c"
| "filepath_ToSlash (c # cs) = c @ ''/'' @ filepath_ToSlash cs"

text \<open>\<^verbatim>\<open>strings.ToLower\<close> on the ASCII letters (file names are read as ASCII bytes).\<close>

definition to_lower :: "char \<Rightarrow> char" where
  "to_lower c =
     (if CHR ''A'' \<le> c \<and> c \<le> CHR ''Z'' then char_of (of_char c + (32::nat)) else c)"

definition strings_ToLower :: "string \<Rightarrow> string" where
  "strings_ToLower s = map to_lower s"

subsection \<open>\<^verbatim>\<open>filepath.Walk\<close>\<close>

text \<open>
  \<^verbatim>\<open>Walk(root, fn)\<close> calls \<open>fn\<close> for every entry below \<open>root\<close>, directories before their
  entries, the names of a directory in lexical order. \<open>fn\<close> receives the path, the
  \<^verbatim>\<open>FileInfo\<close> (\<^verbatim>\<open>nil\<close> when \<^verbatim>\<open>lstat\<close> failed) and the error met on the way to the entry; the
  error \<open>fn\<close> returns stops the walk, unless it is \<^verbatim>\<open>SkipDir\<close>. The state \<open>'s\<close> is what the
  closure \<open>fn\<close> captures and updates.
  \<^verbatim>\<open>
  func walk(path string, info fs.FileInfo, walkFn WalkFunc) error {
    if !info.IsDir() { return walkFn(path, info, nil) }
    names, err := readDirNames(path)
    err1 := walkFn(path, info, err)
    if err != nil || err1 != nil { return err1 }
    for _, name := range names {
      filename := Join(path, name)
      fileInfo, err := lstat(filename)
      if err != nil {
        if err := walkFn(filename, fileInfo, err); err != nil && err != SkipDir { return err }
      } else {
        err = walk(filename, fileInfo, walkFn)
        if err != nil { if !fileInfo.IsDir() || err != SkipDir { return err } }
      }
    }
    return nil
  }
  \<close>
\<close>

record FileInfo =
  fi_Name :: string
  fi_IsDir :: bool

definition lstat_info :: "path \<Rightarrow> fsnode \<Rightarrow> FileInfo" where
  "lstat_info p n = \<lparr>fi_Name = filepath_Base p, fi_IsDir = is_Dir n\<rparr>"

type_synonym 's WalkFunc = "path \<Rightarrow> FileInfo option \<Rightarrow> error option \<Rightarrow> 's \<Rightarrow> 's \<times> error option"

lemma map_of_size_le:
  "map_of es name = Some n \<Longrightarrow> size n \<le> size_list (size_prod (\<lambda>_. 0) size) es"
  by (induction es) (auto split: if_splits)

function walk :: "'s WalkFunc \<Rightarrow> path \<Rightarrow> fsnode \<Rightarrow> 's \<Rightarrow> 's \<times> error option"
and walk_names ::
  "'s WalkFunc \<Rightarrow> path \<Rightarrow> (string \<times> fsnode) list \<Rightarrow> string list \<Rightarrow> 's \<Rightarrow> 's \<times> error option" where
  "walk walkFn p (File b) s = walkFn p (Some (lstat_info p (File b))) None s"
| "walk walkFn p Inaccessible s = walkFn p (Some (lstat_info p Inaccessible)) None s"
| "walk walkFn p (Dir readable es) s =
     (let err = (if readable then None else Some PathError);
          (s, err1) = walkFn p (Some (lstat_info p (Dir readable es))) err s
      in if err \<noteq> None \<or> err1 \<noteq> None then (s, err1)
         else walk_names walkFn p es (sort (map fst es)) s)"
| "walk_names walkFn p es [] s = (s, None)"
| "walk_names walkFn p es (name # names) s =
     (let filename = p @ [name] in
      case map_of es name of
        None \<Rightarrow>
          (case walkFn filename None (Some PathError) s of
             (s, None) \<Rightarrow> walk_names walkFn p es names s
           | (s, Some e) \<Rightarrow>
               if e \<noteq> SkipDir then (s, Some e) else walk_names walkFn p es names s)
      | Some Inaccessible \<Rightarrow>
          (case walkFn filename None (Some PathError) s of
             (s, None) \<Rightarrow> walk_names walkFn p es names s
           | (s, Some e) \<Rightarrow>
               if e \<noteq> SkipDir then (s, Some e) else walk_names walkFn p es names s)
      | Some n \<Rightarrow>
          (case walk walkFn filename n s of
             (s, None) \<Rightarrow> walk_names walkFn p es names s
           | (s, Some e) \<Rightarrow>
               if \<not> is_Dir n \<or> e \<noteq> SkipDir then (s, Some e)
               else walk_names walkFn p es names s))"
  by pat_completeness auto
termination
  apply (relation "inv_image (less_than <*lex*> less_than)
    (\<lambda>x. case x of
       Inl (walkFn, p, n, s) \<Rightarrow> (size n, 0)
     | Inr (walkFn, p, es, names, s) \<Rightarrow>
         (size_list (size_prod (\<lambda>_. 0) size) es, Suc (length names)))")
  apply (auto dest: map_of_size_le)
  done

text \<open>
  \<^verbatim>\<open>
  func Walk(root string, fn WalkFunc) error {
    info, err := os.Lstat(root)
    if err != nil { err = fn(root, nil, err) } else { err = walk(root, info, fn) }
    if err == SkipDir || err == SkipAll { return nil }
    return err
  }
  \<close>
\<close>

definition filepath_Walk :: "fsnode \<Rightarrow> path \<Rightarrow> 's WalkFunc \<Rightarrow> 's \<Rightarrow> 's \<times> error option" where
  "filepath_Walk disk root fn s =
     (let (s, err) =
            (case os_Stat disk root of
               Inl e \<Rightarrow> fn root None (Some e) s
             | Inr info \<Rightarrow> walk fn root info s)
      in if err = Some SkipDir \<or> err = Some SkipAll then (s, None) else (s, err))"

section \<open>The remote store\<close>

text \<open>
  The bucket is a list of objects in listing order. The program sends two requests.
  \<^verbatim>\<open>ListObjectsV2\<close> with only the bucket name set answers with the first page of the
  listing, at most 1000 keys, and says in \<^verbatim>\<open>IsTruncated\<close> whether more follow.
  \<^verbatim>\<open>GetObject\<close> answers with a stream of the object's bytes. A request can fail, and a
  stream can break after some bytes: \<open>list_fails\<close> and \<open>faults\<close> say which do.
\<close>

datatype fault = GetFault | StreamFault nat

record S3 =
  objects :: "(string \<times> bytes) list"
  list_fails :: bool
  faults :: "(string \<times> fault) list"

record Object =
  Key :: "string option"
  Size :: nat

record ListObjectsV2Output =
  Contents :: "Object list"
  IsTruncated :: bool

definition s3_ListObjectsV2 :: "S3 \<Rightarrow> error + ListObjectsV2Output" where
  "s3_ListObjectsV2 s3 =
     (if list_fails s3 then Inl S3Error
      else Inr \<lparr>Contents = map (\<lambda>(k, b). \<lparr>Key = Some k, Size = length b\<rparr>) (take 1000 (objects s3)),
                IsTruncated = (1000 < length (objects s3))\<rparr>)"

record Body =
  body_data :: bytes
  read_error :: bool

definition s3_GetObject :: "S3 \<Rightarrow> string \<Rightarrow> error + Body" where
  "s3_GetObject s3 key =
     (case map_of (objects s3) key of
        None \<Rightarrow> Inl S3Error
      | Some b \<Rightarrow>
          (case map_of (faults s3) key of
             None \<Rightarrow> Inr \<lparr>body_data = b, read_error = False\<rparr>
           | Some GetFault \<Rightarrow> Inl S3Error
           | Some (StreamFault n) \<Rightarrow> Inr \<lparr>body_data = take n b, read_error = True\<rparr>))"

text \<open>\<^verbatim>\<open>io.Copy(file, resp.Body)\<close> writes what the stream delivers, and returns the error that
  ended the stream, if one did.\<close>

definition io_Copy :: "fsnode \<Rightarrow> path \<Rightarrow> Body \<Rightarrow> fsnode \<times> error option" where
  "io_Copy disk dst body =
     (case file_Write disk dst (body_data body) of
        Inl e \<Rightarrow> (disk, Some e)
      | Inr disk' \<Rightarrow> (disk', if read_error body then Some CopyError else None))"

section \<open>The program\<close>

record AppConfig =
  MediaDir :: path
  S3Bucket :: string
  S3Region :: string
  SyncInterval :: nat
  Port :: string

text \<open>\<^verbatim>\<open>MediaFile.Path\<close> is the path \<^verbatim>\<open>filepath.Walk\<close> hands to the callback.\<close>

record MediaFile =
  Name :: string
  Path :: path
  URL :: string

text \<open>\<open>s3Client\<close> is whether the pointer \<^verbatim>\<open>s.s3Client\<close> is set.\<close>

record Server =
  config :: AppConfig
  s3Client :: bool
  mediaList :: "MediaFile list"

subsection \<open>\<^verbatim>\<open>scanMedia\<close>\<close>

definition supportedExts :: "string \<Rightarrow> bool" where
  "supportedExts ext =
     (ext \<in> {''.mp4'', ''.avi'', ''.mov'', ''.mkv'', ''.webm'', ''.m4v'', ''.3gp''})"

text \<open>
  The callback of the walk. It returns the error it is given, and it reads \<open>info\<close> only
  when there is none (reading a \<^verbatim>\<open>nil\<close> \<open>info\<close> would be a nil dereference).
\<close>

definition scanMedia_walkFn :: "path \<Rightarrow> MediaFile list WalkFunc" where
  "scanMedia_walkFn mediaDir p info err mediaFiles =
     (case err of
        Some e \<Rightarrow> (mediaFiles, Some e)
      | None \<Rightarrow>
          (case info of
             None \<Rightarrow> (mediaFiles, Some NilPointer)
           | Some info \<Rightarrow>
               if \<not> fi_IsDir info then
                 let ext = strings_ToLower (filepath_Ext p) in
                 if supportedExts ext then
                   let relPath = filepath_Rel mediaDir p;
                       mediaFile = \<lparr>Name = fi_Name info, Path = p,
                                    URL = ''/media/'' @ filepath_ToSlash relPath\<rparr>
                   in (mediaFiles @ [mediaFile], None)
                 else (mediaFiles, None)
               else (mediaFiles, None)))"

text \<open>
  \<open>scanMedia_walk\<close> is the call of \<^verbatim>\<open>filepath.Walk\<close> in \<^verbatim>\<open>scanMedia\<close>: it returns the collected
  \<^verbatim>\<open>mediaFiles\<close> and the error of the walk, which \<^verbatim>\<open>scanMedia\<close> only logs.
\<close>

definition scanMedia_walk :: "Server \<Rightarrow> fsnode \<Rightarrow> MediaFile list \<times> error option" where
  "scanMedia_walk s disk =
     filepath_Walk disk (MediaDir (config s)) (scanMedia_walkFn (MediaDir (config s))) []"

definition scanMedia :: "Server \<Rightarrow> fsnode \<Rightarrow> Server" where
  "scanMedia s disk =
     (let (mediaFiles, err) = scanMedia_walk s disk;
          mediaFiles = sort_Slice Name mediaFiles
      in s\<lparr>mediaList := mediaFiles\<rparr>)"

subsection \<open>\<^verbatim>\<open>downloadFromS3\<close>\<close>

definition downloadFromS3 :: "S3 \<Rightarrow> fsnode \<Rightarrow> string \<Rightarrow> path \<Rightarrow> fsnode \<times> error option" where
  "downloadFromS3 s3 disk key localPath =
     (case os_MkdirAll disk (filepath_Dir localPath) of
        Inl err \<Rightarrow> (disk, Some err)
      | Inr disk \<Rightarrow>
          (case s3_GetObject s3 key of
             Inl err \<Rightarrow> (disk, Some err)
           | Inr resp \<Rightarrow>
               (case os_Create disk localPath of
                  Inl err \<Rightarrow> (disk, Some err)
                | Inr disk \<Rightarrow> io_Copy disk localPath resp)))"

subsection \<open>\<^verbatim>\<open>syncFromS3\<close>\<close>

text \<open>\<^verbatim>\<open>slices.Index\<close> is the first index of a value, or \<open>-1\<close>; \<^verbatim>\<open>slices.Delete(s, i, j)\<close>
  removes \<open>s[i:j]\<close>.\<close>

fun slices_Index_loop :: "'a list \<Rightarrow> 'a \<Rightarrow> nat \<Rightarrow> int" where
  "slices_Index_loop [] v i = - 1"
| "slices_Index_loop (x # xs) v i = (if v = x then int i else slices_Index_loop xs v (i + 1))"

definition slices_Index :: "'a list \<Rightarrow> 'a \<Rightarrow> int" where
  "slices_Index s v = slices_Index_loop s v 0"

definition slices_Delete :: "'a list \<Rightarrow> int \<Rightarrow> int \<Rightarrow> 'a list" where
  "slices_Delete s i j = take (nat i) s @ drop (nat j) s"

text \<open>
  What one cycle does to the outside world, in the order it does it: a key found on
  disk (\<^verbatim>\<open>os.Stat\<close> succeeded), a download with its outcome, a removal with its outcome,
  and the rescan at the end.
\<close>

datatype action =
    Present string path
  | Download string path "error option"
  | Remove path "error option"
  | Rescan

text \<open>The local variables of \<^verbatim>\<open>syncFromS3\<close>, with the disk and the actions so far.\<close>

record sync_state =
  disk :: fsnode
  localFilesToRemove :: "path list"
  syncCount :: nat
  trace :: "action list"

text \<open>The loop \<^verbatim>\<open>for _, obj := range resp.Contents\<close>.\<close>

fun sync_objects :: "S3 \<Rightarrow> path \<Rightarrow> Object list \<Rightarrow> sync_state \<Rightarrow> sync_state" where
  "sync_objects s3 mediaDir [] st = st"
| "sync_objects s3 mediaDir (obj # objs) st =
     (case Key obj of
        None \<Rightarrow> sync_objects s3 mediaDir objs st
      | Some fileName \<Rightarrow>
          let localPath = filepath_Join mediaDir fileName in
          (case os_Stat (disk st) localPath of
             Inr info \<Rightarrow>
               let index = slices_Index (localFilesToRemove st) localPath;
                   st = (if index \<noteq> - 1
                         then st\<lparr>localFilesToRemove :=
                                   slices_Delete (localFilesToRemove st) index (index + 1)\<rparr>
                         else st)
               in sync_objects s3 mediaDir objs
                    (st\<lparr>trace := trace st @ [Present fileName localPath]\<rparr>)
           | Inl e \<Rightarrow>
               (case downloadFromS3 s3 (disk st) fileName localPath of
                  (disk', Some err) \<Rightarrow>
                    sync_objects s3 mediaDir objs
                      (st\<lparr>disk := disk',
                          trace := trace st @ [Download fileName localPath (Some err)]\<rparr>)
                | (disk', None) \<Rightarrow>
                    sync_objects s3 mediaDir objs
                      (st\<lparr>disk := disk', syncCount := syncCount st + 1,
                          trace := trace st @ [Download fileName localPath None]\<rparr>))))"

text \<open>The loop \<^verbatim>\<open>for _, localF := range localFilesToRemove { os.Remove(localF) }\<close>; the
  error of \<^verbatim>\<open>os.Remove\<close> is dropped.\<close>

fun remove_files :: "path list \<Rightarrow> sync_state \<Rightarrow> sync_state" where
  "remove_files [] st = st"
| "remove_files (localF # rest) st =
     (case os_Remove (disk st) localF of
        Inl err \<Rightarrow> remove_files rest (st\<lparr>trace := trace st @ [Remove localF (Some err)]\<rparr>)
      | Inr disk' \<Rightarrow>
          remove_files rest (st\<lparr>disk := disk', trace := trace st @ [Remove localF None]\<rparr>))"

text \<open>
  One reconciliation cycle. It takes the remote store, the server and the disk, and
  returns the server and the disk after the cycle, with the actions performed.
\<close>

definition syncFromS3 :: "S3 \<Rightarrow> Server \<times> fsnode \<Rightarrow> (Server \<times> fsnode) \<times> action list" where
  "syncFromS3 s3 = (\<lambda>(s, disk0).
     if \<not> s3Client s then ((s, disk0), [])
     else
       case s3_ListObjectsV2 s3 of
         Inl err \<Rightarrow> ((s, disk0), [])
       | Inr resp \<Rightarrow>
           let st = \<lparr>disk = disk0, localFilesToRemove = map Path (mediaList s),
                     syncCount = 0, trace = []\<rparr>;
               st = sync_objects s3 (MediaDir (config s)) (Contents resp) st;
               st = (if length (localFilesToRemove st) > 0
                     then remove_files (localFilesToRemove st) st else st)
           in if syncCount st > 0
              then ((scanMedia s (disk st), disk st), trace st @ [Rescan])
              else ((s, disk st), trace st))"

subsection \<open>Reading a trace\<close>

text \<open>The kinds of action, the key an action fetched, and whether a download succeeded.\<close>

fun is_Download :: "action \<Rightarrow> bool" where
  "is_Download (Download k p e) = True"
| "is_Download a = False"

fun is_Remove :: "action \<Rightarrow> bool" where
  "is_Remove (Remove p e) = True"
| "is_Remove a = False"

fun is_fetch :: "action \<Rightarrow> bool" where
  "is_fetch (Present k p) = True"
| "is_fetch (Download k p e) = True"
| "is_fetch a = False"

fun fetched_key :: "action \<Rightarrow> string option" where
  "fetched_key (Present k p) = Some k"
| "fetched_key (Download k p e) = Some k"
| "fetched_key a = None"

fun downloaded :: "action \<Rightarrow> bool" where
  "downloaded (Download k p None) = True"
| "downloaded a = False"

fun removed_path :: "action \<Rightarrow> path option" where
  "removed_path (Remove p e) = Some p"
| "removed_path a = None"

text \<open>One iteration of the loop over \<^verbatim>\<open>resp.Contents\<close>.\<close>

definition sync_step :: "S3 \<Rightarrow> path \<Rightarrow> Object \<Rightarrow> sync_state \<Rightarrow> sync_state" where
  "sync_step s3 dir obj st = sync_objects s3 dir [obj] st"

subsection \<open>The order of a walk\<close>

text \<open>
  The traversal of \<^verbatim>\<open>filepath.Walk\<close> written as a list, apart from the callback: every entry
  the walk would visit if no callback ever returned an error, in the order of the walk,
  with the \<^verbatim>\<open>FileInfo\<close> and the error the callback would be given. A directory that cannot
  be read is visited with the error and not entered; an entry that cannot be examined is
  visited with the error and no \<^verbatim>\<open>FileInfo\<close>.
\<close>

type_synonym visit = "path \<times> FileInfo option \<times> error option"

function visits :: "path \<Rightarrow> fsnode \<Rightarrow> visit list"
and visits_names :: "path \<Rightarrow> (string \<times> fsnode) list \<Rightarrow> string list \<Rightarrow> visit list" where
  "visits p (File b) = [(p, Some (lstat_info p (File b)), None)]"
| "visits p Inaccessible = [(p, Some (lstat_info p Inaccessible), None)]"
| "visits p (Dir readable es) =
     (p, Some (lstat_info p (Dir readable es)), if readable then None else Some PathError)
       # (if readable then visits_names p es (sort (map fst es)) else [])"
| "visits_names p es [] = []"
| "visits_names p es (name # names) =
     (case map_of es name of
        None \<Rightarrow> [(p @ [name], None, Some PathError)]
      | Some Inaccessible \<Rightarrow> [(p @ [name], None, Some PathError)]
      | Some n \<Rightarrow> visits (p @ [name]) n)
     @ visits_names p es names"
  by pat_completeness auto
termination
  apply (relation "inv_image (less_than <*lex*> less_than)
    (\<lambda>x. case x of
       Inl (p, n) \<Rightarrow> (size n, 0)
     | Inr (p, es, names) \<Rightarrow>
         (size_list (size_prod (\<lambda>_. 0) size) es, Suc (length names)))")
  apply (auto dest: map_of_size_le)
  done

text \<open>The visits of \<^verbatim>\<open>Walk(root, fn)\<close>: the root that cannot be examined is one visit with
  the error.\<close>

definition root_visits :: "fsnode \<Rightarrow> path \<Rightarrow> visit list" where
  "root_visits d root =
     (case os_Stat d root of Inl e \<Rightarrow> [(root, None, Some e)] | Inr n \<Rightarrow> visits root n)"

text \<open>
  A visit is in order when it carries no error (and a \<^verbatim>\<open>FileInfo\<close>); \<open>media_of\<close> is the
  inventory entry a visit in order contributes, if it is a file with a supported
  extension; \<open>collect\<close> runs over the visits up to the first that is not in order.
\<close>

fun visit_ok :: "visit \<Rightarrow> bool" where
  "visit_ok (p, info, err) = (err = None \<and> info \<noteq> None)"

fun visit_error :: "visit \<Rightarrow> error" where
  "visit_error (p, info, Some e) = e"
| "visit_error (p, info, None) = NilPointer"

fun media_of :: "path \<Rightarrow> visit \<Rightarrow> MediaFile option" where
  "media_of mediaDir (p, Some info, err) =
     (if \<not> fi_IsDir info \<and> supportedExts (strings_ToLower (filepath_Ext p))
      then Some \<lparr>Name = fi_Name info, Path = p,
                 URL = ''/media/'' @ filepath_ToSlash (filepath_Rel mediaDir p)\<rparr>
      else None)"
| "media_of mediaDir (p, None, err) = None"

fun collect :: "path \<Rightarrow> MediaFile list \<Rightarrow> visit list \<Rightarrow> MediaFile list \<times> error option" where
  "collect dir acc [] = (acc, None)"
| "collect dir acc (v # vs) =
     (if visit_ok v then collect dir (acc @ (case media_of dir v of None \<Rightarrow> [] | Some m \<Rightarrow> [m])) vs
      else (acc, Some (visit_error v)))"

section \<open>Example worlds\<close>

text \<open>Small concrete servers, disks and buckets, on which the theorems are instantiated.\<close>

definition ex_config :: AppConfig where
  "ex_config = \<lparr>MediaDir = [''srv'', ''media''], S3Bucket = ''signage'',
                S3Region = ''sa-east-1'', SyncInterval = 15, Port = ''8080''\<rparr>"

definition ex_server :: "MediaFile list \<Rightarrow> Server" where
  "ex_server ml = \<lparr>config = ex_config, s3Client = True, mediaList = ml\<rparr>"

definition ex_disk :: "(string \<times> fsnode) list \<Rightarrow> fsnode" where
  "ex_disk es = Dir True [(''srv'', Dir True [(''media'', Dir True es)])]"

definition ex_media :: "string \<Rightarrow> MediaFile" where
  "ex_media name = \<lparr>Name = name, Path = [''srv'', ''media'', name], URL = ''/media/'' @ name\<rparr>"

definition ex_s3 :: "(string \<times> bytes) list \<Rightarrow> S3" where
  "ex_s3 objs = \<lparr>objects = objs, list_fails = False, faults = []\<rparr>"

text \<open>A bucket whose only object breaks off after two bytes.\<close>

definition c7_s3 :: S3 where
  "c7_s3 = (ex_s3 [(''a.mp4'', ''AAAAAA'')])\<lparr>faults := [(''a.mp4'', StreamFault 2)]\<rparr>"

text \<open>A bucket of 1001 objects, with the keys \<^verbatim>\<open>k\<close>, \<^verbatim>\<open>kk\<close>, \<^verbatim>\<open>kkk\<close> and so on.\<close>

definition c8_s3 :: S3 where
  "c8_s3 = ex_s3 (map (\<lambda>i. (replicate (Suc i) CHR ''k'', [])) [0..<1001])"

text \<open>A media directory whose first entry cannot be examined.\<close>

definition c5_disk :: fsnode where
  "c5_disk = ex_disk [(''a.mp4'', Inaccessible), (''b.mp4'', File ''B'')]"

section \<open>Lemmas\<close>

subsection \<open>\<^verbatim>\<open>slices.Index\<close> and \<^verbatim>\<open>slices.Delete\<close>\<close>

lemma slices_Index_loop_range:
  "slices_Index_loop xs v i = - 1 \<or> (int i \<le> slices_Index_loop xs v i \<and> slices_Index_loop xs v i < int i + int (length xs))"
  by (induction xs v i rule: slices_Index_loop.induct) auto

lemma slices_Index_loop_none: "slices_Index_loop xs v i = - 1 \<longleftrightarrow> v \<notin> set xs"
proof (induction xs v i rule: slices_Index_loop.induct)
  case (1 v i)
  then show ?case by simp
next
  case (2 x xs v i)
  then show ?case by auto
qed

lemma slices_Delete_Index_loop:
  "v \<in> set xs \<Longrightarrow>
   take (nat (slices_Index_loop xs v i - int i)) xs @ drop (nat (slices_Index_loop xs v i - int i + 1)) xs
     = remove1 v xs"
proof (induction xs v i rule: slices_Index_loop.induct)
  case (1 v i)
  then show ?case by simp
next
  case (2 x xs v i)
  show ?case
  proof (cases "v = x")
    case True
    then show ?thesis by simp
  next
    case False
    then have vin: "v \<in> set xs" using 2 by simp
    have rng: "int (Suc i) \<le> slices_Index_loop xs v (Suc i)"
      using slices_Index_loop_range[of xs v "Suc i"] slices_Index_loop_none[of xs v "Suc i"] vin by auto
    have "nat (slices_Index_loop xs v (Suc i) - int i) = Suc (nat (slices_Index_loop xs v (Suc i) - int (Suc i)))"
      using rng by auto
    moreover have "nat (slices_Index_loop xs v (Suc i) - int i + 1) = Suc (nat (slices_Index_loop xs v (Suc i) - int (Suc i) + 1))"
      using rng by auto
    ultimately show ?thesis using False 2(1)[OF False vin] by simp
  qed
qed

lemma slices_Delete_Index:
  "(if slices_Index xs v \<noteq> - 1 then slices_Delete xs (slices_Index xs v) (slices_Index xs v + 1) else xs)
     = remove1 v xs"
proof (cases "v \<in> set xs")
  case True
  then show ?thesis
    using slices_Delete_Index_loop[of v xs 0] slices_Index_loop_none[of xs v 0]
    by (simp add: slices_Index_def slices_Delete_def)
next
  case False
  then show ?thesis
    using slices_Index_loop_none[of xs v 0] by (simp add: slices_Index_def remove1_idem)
qed

subsection \<open>Files that an operation leaves alone\<close>

text \<open>
  An operation at path \<open>q\<close> that refuses non-empty directories leaves every file at
  another path as it was; \<^verbatim>\<open>os.MkdirAll\<close> leaves every file as it was.
\<close>

lemma fs_lookup_Cons_Dir:
  "fs_lookup n (c # cs) = Some m \<Longrightarrow> \<exists>r e es. n = Dir r (e # es)"
  by (cases n; cases "case n of Dir r es \<Rightarrow> es | _ \<Rightarrow> []") auto

lemma alter_preserves_File:
  "alter f n q = Some n' \<Longrightarrow> p \<noteq> q \<Longrightarrow> fs_lookup n p = Some (File b)
     \<Longrightarrow> (\<And>r e es. f (Some (Dir r (e # es))) = None)
     \<Longrightarrow> fs_lookup n' p = Some (File b)"
  "alter_in f es c cs = Some es' \<Longrightarrow> d # ds \<noteq> c # cs \<Longrightarrow> fs_lookup_in es d ds = Some (File b)
     \<Longrightarrow> (\<And>r e es. f (Some (Dir r (e # es))) = None)
     \<Longrightarrow> fs_lookup_in es' d ds = Some (File b)"
proof (induction f n q and f es c cs arbitrary: n' p and es' d ds rule: alter_alter_in.induct)
  case (1 f n)
  then show ?case by simp
next
  case (2 f r es c cs)
  then obtain es' where es': "alter_in f es c cs = Some es'" "n' = Dir r es'" by auto
  from 2(4) obtain d ds where p: "p = d # ds" by (cases p) auto
  show ?case using 2(1)[OF es'(1), of d ds] 2(3,4,5) es'(2) p by simp
next
  case (3 f b c cs)
  then show ?case by simp
next
  case (4 f c cs)
  then show ?case by simp
next
  case (5 f c cs)
  then show ?case by simp
next
  case (6 f name n es c cs)
  show ?case
  proof (cases "name = c")
    case False
    then obtain es0 where es0: "alter_in f es c cs = Some es0" "es' = (name, n) # es0"
      using 6(3) by auto
    show ?thesis
    proof (cases "d = name")
      case True
      then show ?thesis using 6(5) es0 by simp
    next
      case dn: False
      then show ?thesis using 6(2)[OF False es0(1) 6(4)] 6(5,6) es0(2) by simp
    qed
  next
    case True
    show ?thesis
    proof (cases "cs = []")
      case cs: True
      show ?thesis
      proof (cases "d = c")
        case dc: True
        then have "ds \<noteq> []" using 6(4) cs by simp
        then obtain x xs where "ds = x # xs" by (cases ds) auto
        then have "\<exists>r e es. n = Dir r (e # es)"
          using 6(5) True dc fs_lookup_Cons_Dir[of n x xs] by auto
        then have "f (Some n) = None" using 6(6) by auto
        then show ?thesis using 6(3) True cs by simp
      next
        case dc: False
        then show ?thesis using 6(3,5) True cs by (auto split: option.splits)
      qed
    next
      case cs: False
      then obtain n1 where n1: "alter f n cs = Some n1" "es' = (name, n1) # es"
        using 6(3) True by auto
      show ?thesis
      proof (cases "d = c")
        case dc: True
        then have "ds \<noteq> cs" using 6(4) by simp
        then show ?thesis using 6(1)[OF True cs n1(1), of ds] 6(5,6) True dc n1(2) by simp
      next
        case dc: False
        then show ?thesis using 6(5) True n1(2) by simp
      qed
    qed
  qed
qed

lemma mkdirAll_preserves_File:
  "mkdirAll n q = Some n' \<Longrightarrow> fs_lookup n p = Some (File b) \<Longrightarrow> fs_lookup n' p = Some (File b)"
  "mkdirAll_in es c cs = Some es' \<Longrightarrow> fs_lookup_in es d ds = Some (File b)
     \<Longrightarrow> fs_lookup_in es' d ds = Some (File b)"
proof (induction n q and es c cs arbitrary: n' p and es' d ds rule: mkdirAll_mkdirAll_in.induct)
  case (1 r es)
  then show ?case by simp
next
  case (2 b cs)
  then show ?case by simp
next
  case (3 cs)
  then show ?case by simp
next
  case (4 r es c cs)
  then obtain es' where es': "mkdirAll_in es c cs = Some es'" "n' = Dir r es'" by auto
  from 4(3) obtain d ds where p: "p = d # ds" by (cases p) auto
  show ?case using 4(1)[OF es'(1), of d ds] 4(3) es'(2) p by simp
next
  case (5 c cs)
  then show ?case by simp
next
  case (6 name n es c cs)
  show ?case
  proof (cases "name = c")
    case True
    then obtain n1 where n1: "mkdirAll n cs = Some n1" "es' = (name, n1) # es" using 6(3) by auto
    show ?thesis
      using 6(1)[OF True n1(1), of ds] 6(4) True n1(2) by (cases "d = c") auto
  next
    case False
    then obtain es0 where es0: "mkdirAll_in es c cs = Some es0" "es' = (name, n) # es0"
      using 6(3) by auto
    show ?thesis
      using 6(2)[OF False es0(1), of d ds] 6(4) es0(2) by (cases "d = name") auto
  qed
qed

lemma os_Stat_fails_not_File:
  "os_Stat d lp = Inl e \<Longrightarrow> fs_lookup d p = Some (File b) \<Longrightarrow> p \<noteq> lp"
  by (auto simp: os_Stat_def)

lemma os_Create_preserves_File:
  "os_Create d q = Inr d' \<Longrightarrow> p \<noteq> q \<Longrightarrow> fs_lookup d p = Some (File b) \<Longrightarrow> fs_lookup d' p = Some (File b)"
  unfolding os_Create_def
  by (auto split: option.splits elim!: alter_preserves_File(1)[where f = create_entry])

lemma file_Write_preserves_File:
  "file_Write d q bs = Inr d' \<Longrightarrow> p \<noteq> q \<Longrightarrow> fs_lookup d p = Some (File b) \<Longrightarrow> fs_lookup d' p = Some (File b)"
  unfolding file_Write_def
  by (auto split: option.splits elim!: alter_preserves_File(1)[where f = "write_entry bs"])

lemma os_Remove_preserves_File:
  "os_Remove d q = Inr d' \<Longrightarrow> p \<noteq> q \<Longrightarrow> fs_lookup d p = Some (File b) \<Longrightarrow> fs_lookup d' p = Some (File b)"
  unfolding os_Remove_def
  by (auto split: option.splits elim!: alter_preserves_File(1)[where f = remove_entry])

lemma os_MkdirAll_preserves_File:
  "os_MkdirAll d q = Inr d' \<Longrightarrow> fs_lookup d p = Some (File b) \<Longrightarrow> fs_lookup d' p = Some (File b)"
  unfolding os_MkdirAll_def
  by (auto split: option.splits intro: mkdirAll_preserves_File(1))

lemma downloadFromS3_preserves_File:
  assumes "downloadFromS3 s3 d key lp = (d', e)" "p \<noteq> lp" "fs_lookup d p = Some (File b)"
  shows "fs_lookup d' p = Some (File b)"
  using assms unfolding downloadFromS3_def io_Copy_def
  by (auto split: sum.splits
           dest!: os_MkdirAll_preserves_File[where p = p and b = b]
           dest: os_Create_preserves_File[where p = p and b = b]
                 file_Write_preserves_File[where p = p and b = b])

text \<open>What an operation leaves at its own path, and when it succeeds.\<close>

lemma alter_lookup_same:
  "alter f n q = Some n' \<Longrightarrow> \<exists>r. f (fs_lookup n q) = Some r \<and> (\<forall>x. r = Some x \<longrightarrow> fs_lookup n' q = Some x)"
  "alter_in f es c cs = Some es' \<Longrightarrow>
     \<exists>r. f (fs_lookup_in es c cs) = Some r \<and> (\<forall>x. r = Some x \<longrightarrow> fs_lookup_in es' c cs = Some x)"
proof (induction f n q and f es c cs arbitrary: n' and es' rule: alter_alter_in.induct)
  case (1 f n)
  then show ?case by simp
next
  case (2 f r es c cs)
  then show ?case by auto
next
  case (3 f b c cs)
  then show ?case by simp
next
  case (4 f c cs)
  then show ?case by simp
next
  case (5 f c cs)
  then show ?case by (auto split: if_splits option.splits)
next
  case (6 f name n es c cs)
  then show ?case by (auto split: if_splits option.splits)
qed

lemma alter_succeeds:
  "fs_lookup n q = Some x \<Longrightarrow> q \<noteq> [] \<Longrightarrow> f (Some x) \<noteq> None \<Longrightarrow> alter f n q \<noteq> None"
  "fs_lookup_in es c cs = Some x \<Longrightarrow> f (Some x) \<noteq> None \<Longrightarrow> alter_in f es c cs \<noteq> None"
proof (induction f n q and f es c cs rule: alter_alter_in.induct)
  case (6 f name n es c cs)
  then show ?case by (cases cs) (auto split: if_splits option.splits)
qed auto

text \<open>Files after an operation that existed before it.\<close>

lemma alter_reflects_File:
  "alter f n q = Some n' \<Longrightarrow> p \<noteq> q \<Longrightarrow> fs_lookup n' p = Some (File b)
     \<Longrightarrow> (\<And>x r e es. f x \<noteq> Some (Some (Dir r (e # es))) \<and> f x \<noteq> Some None)
     \<Longrightarrow> fs_lookup n p = Some (File b)"
  "alter_in f es c cs = Some es' \<Longrightarrow> d # ds \<noteq> c # cs \<Longrightarrow> fs_lookup_in es' d ds = Some (File b)
     \<Longrightarrow> (\<And>x r e es. f x \<noteq> Some (Some (Dir r (e # es))) \<and> f x \<noteq> Some None)
     \<Longrightarrow> fs_lookup_in es d ds = Some (File b)"
proof (induction f n q and f es c cs arbitrary: n' p and es' d ds rule: alter_alter_in.induct)
  case (1 f n)
  then show ?case by simp
next
  case (2 f r es c cs)
  then obtain es' where es': "alter_in f es c cs = Some es'" "n' = Dir r es'" by auto
  from 2(4) es'(2) obtain d ds where p: "p = d # ds" by (cases p) auto
  show ?case using 2(1)[OF es'(1), of d ds] 2(3,4,5) es'(2) p by simp
next
  case (3 f b c cs)
  then show ?case by simp
next
  case (4 f c cs)
  then show ?case by simp
next
  case (5 f c cs)
  have "\<And>n'. f None = Some (Some n') \<Longrightarrow> fs_lookup_in [(c, n')] d ds = Some (File b) \<Longrightarrow> d = c \<Longrightarrow> ds \<noteq> [] \<Longrightarrow> False"
  proof -
    fix n' assume a: "f None = Some (Some n')" "fs_lookup_in [(c, n')] d ds = Some (File b)" "d = c" "ds \<noteq> []"
    then obtain x xs where "ds = x # xs" by (cases ds) auto
    then have "\<exists>r e es. n' = Dir r (e # es)" using a fs_lookup_Cons_Dir[of n' x xs] by auto
    then show False using a(1) 5(4) by auto
  qed
  then show ?case using 5(1,2,3) by (auto split: if_splits option.splits)
next
  case (6 f name n es c cs)
  show ?case
  proof (cases "name = c")
    case False
    then obtain es0 where es0: "alter_in f es c cs = Some es0" "es' = (name, n) # es0"
      using 6(3) by auto
    show ?thesis
    proof (cases "d = name")
      case True
      then show ?thesis using 6(5) es0 by simp
    next
      case dn: False
      then show ?thesis using 6(2)[OF False es0(1) 6(4)] 6(5,6) es0(2) by simp
    qed
  next
    case True
    show ?thesis
    proof (cases "cs = []")
      case cs: True
      show ?thesis
      proof (cases "d = c")
        case dc: True
        then have dsne: "ds \<noteq> []" using 6(4) cs by simp
        then obtain x xs where ds: "ds = x # xs" by (cases ds) auto
        show ?thesis
        proof (cases "f (Some n)")
          case None
          then show ?thesis using 6(3) True cs by simp
        next
          case (Some r)
          show ?thesis
          proof (cases r)
            case None
            then show ?thesis using 6(6) \<open>f (Some n) = Some r\<close> by auto
          next
            case (Some n1)
            then have e: "es' = (name, n1) # es" using 6(3) True cs \<open>f (Some n) = Some r\<close> by simp
            then have "fs_lookup n1 ds = Some (File b)" using 6(5) True dc by simp
            then have "\<exists>r e es. n1 = Dir r (e # es)" using fs_lookup_Cons_Dir[of n1 x xs] ds by auto
            then show ?thesis using 6(6) \<open>f (Some n) = Some r\<close> Some by auto
          qed
        qed
      next
        case dc: False
        then show ?thesis using 6(3,5) True cs by (auto split: option.splits)
      qed
    next
      case cs: False
      then obtain n1 where n1: "alter f n cs = Some n1" "es' = (name, n1) # es"
        using 6(3) True by auto
      show ?thesis
      proof (cases "d = c")
        case dc: True
        then have "ds \<noteq> cs" using 6(4) by simp
        then show ?thesis using 6(1)[OF True cs n1(1), of ds] 6(5,6) True dc n1(2) by simp
      next
        case dc: False
        then show ?thesis using 6(5) True n1(2) by simp
      qed
    qed
  qed
qed

lemma mkdir_chain_no_File: "fs_lookup (mkdir_chain cs) p \<noteq> Some (File b)"
proof (induction cs arbitrary: p)
  case Nil
  then show ?case by (cases p) auto
next
  case (Cons c cs)
  then show ?case by (cases p) auto
qed

lemma mkdirAll_reflects_File:
  "mkdirAll n q = Some n' \<Longrightarrow> fs_lookup n' p = Some (File b) \<Longrightarrow> fs_lookup n p = Some (File b)"
  "mkdirAll_in es c cs = Some es' \<Longrightarrow> fs_lookup_in es' d ds = Some (File b)
     \<Longrightarrow> fs_lookup_in es d ds = Some (File b)"
proof (induction n q and es c cs arbitrary: n' p and es' d ds rule: mkdirAll_mkdirAll_in.induct)
  case (1 r es)
  then show ?case by simp
next
  case (2 b cs)
  then show ?case by simp
next
  case (3 cs)
  then show ?case by simp
next
  case (4 r es c cs)
  then obtain es' where es': "mkdirAll_in es c cs = Some es'" "n' = Dir r es'" by auto
  from 4(3) es'(2) obtain d ds where p: "p = d # ds" by (cases p) auto
  show ?case using 4(1)[OF es'(1), of d ds] 4(3) es'(2) p by simp
next
  case (5 c cs)
  then show ?case using mkdir_chain_no_File[of cs ds b] by (auto split: if_splits)
next
  case (6 name n es c cs)
  show ?case
  proof (cases "name = c")
    case True
    then obtain n1 where n1: "mkdirAll n cs = Some n1" "es' = (name, n1) # es" using 6(3) by auto
    show ?thesis
      using 6(1)[OF True n1(1), of ds] 6(4) True n1(2) by (cases "d = c") auto
  next
    case False
    then obtain es0 where es0: "mkdirAll_in es c cs = Some es0" "es' = (name, n) # es0"
      using 6(3) by auto
    show ?thesis
      using 6(2)[OF False es0(1), of d ds] 6(4) es0(2) by (cases "d = name") auto
  qed
qed

lemma create_entry_result: "create_entry x = Some r \<Longrightarrow> r = Some (File [])"
  by (cases x rule: create_entry.cases) auto

lemma write_entry_result: "write_entry bs x = Some r \<Longrightarrow> \<exists>b. x = Some (File b) \<and> r = Some (File (b @ bs))"
  by (cases "(bs, x)" rule: write_entry.cases) auto

lemma os_Create_lookup: "os_Create d q = Inr d' \<Longrightarrow> fs_lookup d' q = Some (File [])"
  unfolding os_Create_def
  by (auto split: option.splits dest!: alter_lookup_same(1) create_entry_result)

lemma os_Create_reflects_File:
  "os_Create d q = Inr d' \<Longrightarrow> p \<noteq> q \<Longrightarrow> fs_lookup d' p = Some (File b) \<Longrightarrow> fs_lookup d p = Some (File b)"
  unfolding os_Create_def
  by (auto split: option.splits elim!: alter_reflects_File(1)[where f = create_entry]
           dest: create_entry_result)

lemma file_Write_lookup:
  "file_Write d q bs = Inr d' \<Longrightarrow> \<exists>b. fs_lookup d q = Some (File b) \<and> fs_lookup d' q = Some (File (b @ bs))"
  unfolding file_Write_def
  by (auto split: option.splits dest!: alter_lookup_same(1) write_entry_result)

lemma file_Write_reflects_File:
  "file_Write d q bs = Inr d' \<Longrightarrow> p \<noteq> q \<Longrightarrow> fs_lookup d' p = Some (File b) \<Longrightarrow> fs_lookup d p = Some (File b)"
  unfolding file_Write_def
  by (auto split: option.splits elim!: alter_reflects_File(1)[where f = "write_entry bs"]
           dest: write_entry_result)

lemma file_Write_succeeds:
  "fs_lookup d q = Some (File b) \<Longrightarrow> q \<noteq> [] \<Longrightarrow> \<exists>d'. file_Write d q bs = Inr d'"
  unfolding file_Write_def
  using alter_succeeds(1)[of d q "File b" "write_entry bs"]
  by (auto split: option.splits)

lemma os_Create_nonroot: "os_Create d q = Inr d' \<Longrightarrow> q \<noteq> []"
  unfolding os_Create_def by (cases q) (auto split: option.splits)

lemma os_MkdirAll_reflects_File:
  "os_MkdirAll d q = Inr d' \<Longrightarrow> fs_lookup d' p = Some (File b) \<Longrightarrow> fs_lookup d p = Some (File b)"
  unfolding os_MkdirAll_def
  by (auto split: option.splits intro: mkdirAll_reflects_File(1))

lemma downloadFromS3_other_files:
  assumes "downloadFromS3 s3 d key lp = (d', err)" "p \<noteq> lp"
  shows "fs_lookup d' p = Some (File b) \<longleftrightarrow> fs_lookup d p = Some (File b)"
proof
  assume "fs_lookup d p = Some (File b)"
  then show "fs_lookup d' p = Some (File b)"
    using downloadFromS3_preserves_File[OF assms] by simp
next
  assume a: "fs_lookup d' p = Some (File b)"
  show "fs_lookup d p = Some (File b)"
  proof (cases "os_MkdirAll d (filepath_Dir lp)")
    case (Inl e)
    then show ?thesis using assms(1) a by (simp add: downloadFromS3_def)
  next
    case (Inr d1)
    note mk = os_MkdirAll_reflects_File[OF Inr, of p b]
    show ?thesis
    proof (cases "s3_GetObject s3 key")
      case (Inl e)
      then show ?thesis using assms(1) a Inr mk by (simp add: downloadFromS3_def)
    next
      case resp: (Inr resp)
      show ?thesis
      proof (cases "os_Create d1 lp")
        case (Inl e)
        then show ?thesis using assms(1) a Inr resp mk by (simp add: downloadFromS3_def)
      next
        case cr: (Inr d2)
        note c = os_Create_reflects_File[OF cr assms(2), of b]
        show ?thesis
        proof (cases "file_Write d2 lp (body_data resp)")
          case (Inl e)
          then show ?thesis using assms(1) a Inr resp cr mk c
            by (simp add: downloadFromS3_def io_Copy_def)
        next
          case w: (Inr d3)
          then have "d' = d3" using assms(1) Inr resp cr
            by (simp add: downloadFromS3_def io_Copy_def)
          then show ?thesis using file_Write_reflects_File[OF w assms(2), of b] a mk c by simp
        qed
      qed
    qed
  qed
qed

subsection \<open>The walk of \<^verbatim>\<open>scanMedia\<close>\<close>

text \<open>With the callback of \<^verbatim>\<open>scanMedia\<close>, the walk collects over its visits and stops at
  the first that is not in order.\<close>

lemma collect_append:
  "collect dir acc (xs @ ys) =
     (case collect dir acc xs of (acc', None) \<Rightarrow> collect dir acc' ys | (acc', Some e) \<Rightarrow> (acc', Some e))"
  by (induction xs arbitrary: acc) auto

lemma walkFn_visit:
  "scanMedia_walkFn dir p info err acc =
     (if visit_ok (p, info, err) then (acc @ (case media_of dir (p, info, err) of None \<Rightarrow> [] | Some m \<Rightarrow> [m]), None)
      else (acc, Some (visit_error (p, info, err))))"
  by (cases info; cases err) (auto simp: scanMedia_walkFn_def Let_def)

lemma collect_error_not_Skip:
  "(\<forall>v\<in>set vs. \<forall>e. snd (snd v) = Some e \<longrightarrow> e = PathError) \<Longrightarrow> collect dir acc vs = (acc', Some e)
     \<Longrightarrow> e \<noteq> SkipDir \<and> e \<noteq> SkipAll"
proof (induction vs arbitrary: acc)
  case Nil
  then show ?case by simp
next
  case (Cons v vs)
  obtain p info err where v: "v = (p, info, err)" by (cases v) auto
  show ?case using Cons v by (cases err) (auto split: if_splits)
qed

lemma visits_errors:
  "\<forall>v\<in>set (visits p n). \<forall>e. snd (snd v) = Some e \<longrightarrow> e = PathError"
  "\<forall>v\<in>set (visits_names p es names). \<forall>e. snd (snd v) = Some e \<longrightarrow> e = PathError"
  by (induction p n and p es names rule: visits_visits_names.induct)
     (auto split: option.splits fsnode.splits)

lemma walk_collect:
  "walk (scanMedia_walkFn dir) p n acc = collect dir acc (visits p n)"
  "walk_names (scanMedia_walkFn dir) p es names acc = collect dir acc (visits_names p es names)"
proof (induction p n and p es names arbitrary: acc and acc rule: visits_visits_names.induct)
  case (1 p b)
  then show ?case by (simp add: walkFn_visit)
next
  case (2 p)
  then show ?case by (simp add: walkFn_visit)
next
  case (3 p readable es)
  show ?case
  proof (cases readable)
    case True
    then show ?thesis using 3[OF True, of acc] by (simp add: walkFn_visit lstat_info_def)
  next
    case False
    then show ?thesis by (simp add: walkFn_visit)
  qed
next
  case (4 p es)
  then show ?case by simp
next
  case (5 p es name names)
  show ?case
  proof (cases "map_of es name")
    case None
    then show ?thesis by (simp add: walkFn_visit)
  next
    case (Some n)
    show ?thesis
    proof (cases "n = Inaccessible")
      case True
      then show ?thesis using Some by (simp add: walkFn_visit)
    next
      case False
      have w: "walk (scanMedia_walkFn dir) (p @ [name]) n acc = collect dir acc (visits (p @ [name]) n)"
        using 5(1,2)[OF Some] False by (cases n) auto
      obtain acc1 r where c: "collect dir acc (visits (p @ [name]) n) = (acc1, r)"
        by (cases "collect dir acc (visits (p @ [name]) n)") auto
      have vn: "visits_names p es (name # names) = visits (p @ [name]) n @ visits_names p es names"
        using Some False by (cases n) auto
      have wn: "walk_names (scanMedia_walkFn dir) p es (name # names) acc =
          (case walk (scanMedia_walkFn dir) (p @ [name]) n acc of
             (s, None) \<Rightarrow> walk_names (scanMedia_walkFn dir) p es names s
           | (s, Some e) \<Rightarrow>
               if \<not> is_Dir n \<or> e \<noteq> SkipDir then (s, Some e)
               else walk_names (scanMedia_walkFn dir) p es names s)"
        using Some False by (cases n) (simp_all add: Let_def del: walk.simps)
      show ?thesis
      proof (cases r)
        case None
        then show ?thesis using wn w c vn 5(3)[of acc1] by (simp add: collect_append)
      next
        case (Some e)
        then have "e \<noteq> SkipDir"
          using collect_error_not_Skip[OF visits_errors(1), of dir acc "p @ [name]" n acc1 e] c by simp
        then show ?thesis using wn w c vn Some by (simp add: collect_append)
      qed
    qed
  qed
qed

lemma scanMedia_walk_collect:
  "scanMedia_walk s d = collect (MediaDir (config s)) [] (root_visits d (MediaDir (config s)))"
proof (cases "os_Stat d (MediaDir (config s))")
  case (Inl e)
  then have "e = PathError" by (auto simp: os_Stat_def split: option.splits fsnode.splits)
  then show ?thesis using Inl
    by (simp add: scanMedia_walk_def filepath_Walk_def root_visits_def walkFn_visit)
next
  case (Inr n)
  obtain acc1 r where c: "collect (MediaDir (config s)) [] (visits (MediaDir (config s)) n) = (acc1, r)"
    by (cases "collect (MediaDir (config s)) [] (visits (MediaDir (config s)) n)") auto
  have "r \<noteq> Some SkipDir \<and> r \<noteq> Some SkipAll"
  proof (cases r)
    case None
    then show ?thesis by simp
  next
    case (Some e)
    then show ?thesis
      using collect_error_not_Skip[OF visits_errors(1), of "MediaDir (config s)" "[]" "MediaDir (config s)" n acc1 e] c
      by simp
  qed
  then show ?thesis using Inr c
    by (simp add: scanMedia_walk_def filepath_Walk_def root_visits_def walk_collect(1))
qed

lemma collect_takeWhile:
  "collect dir acc vs =
     (acc @ List.map_filter (media_of dir) (takeWhile visit_ok vs),
      case dropWhile visit_ok vs of [] \<Rightarrow> None | v # _ \<Rightarrow> Some (visit_error v))"
  by (induction vs arbitrary: acc) (auto simp: List.map_filter_simps split: option.splits)

subsection \<open>The two loops of \<^verbatim>\<open>syncFromS3\<close>\<close>

lemma sync_objects_Cons:
  "sync_objects s3 dir (obj # objs) st = sync_objects s3 dir objs (sync_step s3 dir obj st)"
  by (simp add: sync_step_def sync_objects.simps(2) Let_def split: option.splits sum.splits prod.splits)

declare sync_objects.simps(2) [simp del]

lemma sync_step_cases [case_names skip present download]:
  obtains
    "Key obj = None" "sync_step s3 dir obj st = st"
  | k info where "Key obj = Some k" "os_Stat (disk st) (filepath_Join dir k) = Inr info"
      "sync_step s3 dir obj st =
         st\<lparr>localFilesToRemove := remove1 (filepath_Join dir k) (localFilesToRemove st),
            trace := trace st @ [Present k (filepath_Join dir k)]\<rparr>"
  | k e disk' err where "Key obj = Some k" "os_Stat (disk st) (filepath_Join dir k) = Inl e"
      "downloadFromS3 s3 (disk st) k (filepath_Join dir k) = (disk', err)"
      "sync_step s3 dir obj st =
         st\<lparr>disk := disk', syncCount := syncCount st + (if err = None then 1 else 0),
            trace := trace st @ [Download k (filepath_Join dir k) err]\<rparr>"
proof (cases "Key obj")
  case None
  then show ?thesis using that(1) by (simp add: sync_step_def sync_objects.simps(2))
next
  case (Some k)
  show ?thesis
  proof (cases "os_Stat (disk st) (filepath_Join dir k)")
    case (Inr info)
    then show ?thesis using that(2)[OF Some Inr] Some
      by (simp add: sync_step_def sync_objects.simps(2) Let_def slices_Delete_Index[symmetric])
  next
    case (Inl e)
    obtain disk' err where dl: "downloadFromS3 s3 (disk st) k (filepath_Join dir k) = (disk', err)"
      by (cases "downloadFromS3 s3 (disk st) k (filepath_Join dir k)") auto
    show ?thesis using that(3)[OF Some Inl dl] Some Inl dl
      by (cases err) (simp_all add: sync_step_def sync_objects.simps(2) Let_def)
  qed
qed

lemma sync_objects_localFilesToRemove:
  "set (localFilesToRemove (sync_objects s3 dir objs st)) \<subseteq> set (localFilesToRemove st)"
proof (induction objs arbitrary: st)
  case Nil
  then show ?case by simp
next
  case (Cons obj objs)
  have "set (localFilesToRemove (sync_step s3 dir obj st)) \<subseteq> set (localFilesToRemove st)"
    using set_remove1_subset[of _ "localFilesToRemove st"]
    by (cases s3 dir obj st rule: sync_step_cases) auto
  then show ?case using Cons[of "sync_step s3 dir obj st"] by (auto simp: sync_objects_Cons)
qed

lemma sync_objects_preserves_File:
  "fs_lookup (disk st) p = Some (File b)
     \<Longrightarrow> fs_lookup (disk (sync_objects s3 dir objs st)) p = Some (File b)"
proof (induction objs arbitrary: st)
  case Nil
  then show ?case by simp
next
  case (Cons obj objs)
  have "fs_lookup (disk (sync_step s3 dir obj st)) p = Some (File b)"
  proof (cases s3 dir obj st rule: sync_step_cases)
    case skip
    then show ?thesis using Cons.prems by simp
  next
    case (present k info)
    then show ?thesis using Cons.prems by simp
  next
    case (download k e disk' err)
    have "p \<noteq> filepath_Join dir k"
      using os_Stat_fails_not_File[OF download(2) Cons.prems] .
    then show ?thesis
      using downloadFromS3_preserves_File[OF download(3) _ Cons.prems] download(4) by simp
  qed
  then show ?case using Cons.IH by (simp add: sync_objects_Cons)
qed

lemma sync_objects_trace:
  "\<exists>ds. trace (sync_objects s3 dir objs st) = trace st @ ds
        \<and> map fetched_key ds = map Some (List.map_filter Key objs)
        \<and> syncCount (sync_objects s3 dir objs st) = syncCount st + length (filter downloaded ds)"
proof (induction objs arbitrary: st)
  case Nil
  then show ?case by (simp add: List.map_filter_simps)
next
  case (Cons obj objs)
  define st1 where "st1 = sync_step s3 dir obj st"
  obtain ds where ds: "trace (sync_objects s3 dir objs st1) = trace st1 @ ds"
    "map fetched_key ds = map Some (List.map_filter Key objs)"
    "syncCount (sync_objects s3 dir objs st1) = syncCount st1 + length (filter downloaded ds)"
    using Cons[of st1] by blast
  show ?case
  proof (cases s3 dir obj st rule: sync_step_cases)
    case skip
    then show ?thesis using ds
      by (intro exI[of _ ds]) (simp add: sync_objects_Cons st1_def List.map_filter_simps)
  next
    case (present k info)
    then show ?thesis using ds
      by (intro exI[of _ "Present k (filepath_Join dir k) # ds"])
         (simp add: sync_objects_Cons st1_def List.map_filter_simps)
  next
    case (download k e disk' err)
    then show ?thesis using ds
      by (intro exI[of _ "Download k (filepath_Join dir k) err # ds"])
         (cases err; simp add: sync_objects_Cons st1_def List.map_filter_simps)
  qed
qed

lemma remove_files_trace:
  "\<exists>rs. trace (remove_files ps st) = trace st @ rs \<and> map removed_path rs = map Some ps"
proof (induction ps arbitrary: st)
  case Nil
  then show ?case by simp
next
  case (Cons p ps)
  show ?case
  proof (cases "os_Remove (disk st) p")
    case (Inl err)
    obtain rs where "trace (remove_files ps (st\<lparr>trace := trace st @ [Remove p (Some err)]\<rparr>))
        = trace st @ [Remove p (Some err)] @ rs" "map removed_path rs = map Some ps"
      using Cons[of "st\<lparr>trace := trace st @ [Remove p (Some err)]\<rparr>"] by auto
    then show ?thesis using Inl by (intro exI[of _ "Remove p (Some err) # rs"]) simp
  next
    case (Inr disk')
    obtain rs where "trace (remove_files ps (st\<lparr>disk := disk', trace := trace st @ [Remove p None]\<rparr>))
        = trace st @ [Remove p None] @ rs" "map removed_path rs = map Some ps"
      using Cons[of "st\<lparr>disk := disk', trace := trace st @ [Remove p None]\<rparr>"] by auto
    then show ?thesis using Inr by (intro exI[of _ "Remove p None # rs"]) simp
  qed
qed

lemma remove_files_syncCount: "syncCount (remove_files ps st) = syncCount st"
  by (induction ps arbitrary: st) (auto split: sum.splits)

lemma remove_files_preserves_File:
  "fs_lookup (disk st) p = Some (File b) \<Longrightarrow> p \<notin> set ps
     \<Longrightarrow> fs_lookup (disk (remove_files ps st)) p = Some (File b)"
proof (induction ps arbitrary: st)
  case Nil
  then show ?case by simp
next
  case (Cons q ps)
  show ?case
  proof (cases "os_Remove (disk st) q")
    case (Inl err)
    then show ?thesis using Cons by simp
  next
    case (Inr disk')
    have "fs_lookup disk' p = Some (File b)"
      using os_Remove_preserves_File[OF Inr _ Cons.prems(1)] Cons.prems(2) by auto
    then show ?thesis using Inr Cons.IH[of "st\<lparr>disk := disk', trace := trace st @ [Remove q None]\<rparr>"]
        Cons.prems(2) by simp
  qed
qed

text \<open>The cycle after a successful listing, with the two loops named.\<close>

lemma syncFromS3_unfold:
  fixes d :: fsnode and s :: Server
  assumes "s3Client s" "s3_ListObjectsV2 s3 = Inr resp"
  defines "st0 \<equiv> \<lparr>disk = d, localFilesToRemove = map Path (mediaList s), syncCount = 0, trace = []\<rparr>"
  defines "st1 \<equiv> sync_objects s3 (MediaDir (config s)) (Contents resp) st0"
  defines "st2 \<equiv> remove_files (localFilesToRemove st1) st1"
  shows "syncFromS3 s3 (s, d) =
           (if syncCount st1 > 0 then ((scanMedia s (disk st2), disk st2), trace st2 @ [Rescan])
            else ((s, disk st2), trace st2))"
proof -
  have "(if length (localFilesToRemove st1) > 0 then remove_files (localFilesToRemove st1) st1 else st1) = st2"
    by (cases "localFilesToRemove st1") (simp_all add: st2_def)
  then show ?thesis
    using assms(1,2) unfolding syncFromS3_def st1_def st0_def
    by (simp add: Let_def remove_files_syncCount st2_def st1_def st0_def)
qed

subsection \<open>The cycle as a whole\<close>

lemma syncFromS3_no_cycle:
  "\<not> s3Client s \<or> (\<exists>err. s3_ListObjectsV2 s3 = Inl err) \<Longrightarrow> syncFromS3 s3 (s, d) = ((s, d), [])"
  by (auto simp: syncFromS3_def)

text \<open>The shape of a cycle whose listing succeeded.\<close>

lemma syncFromS3_cycle:
  assumes "s3Client s" "s3_ListObjectsV2 s3 = Inr resp" "syncFromS3 s3 (s, d) = ((s', d'), acts)"
  shows "\<exists>fetches removals.
       acts = fetches @ removals @ (if \<exists>a\<in>set fetches. downloaded a then [Rescan] else [])
     \<and> map fetched_key fetches = map Some (List.map_filter Key (Contents resp))
     \<and> (\<forall>a\<in>set removals. \<exists>p e. a = Remove p e \<and> p \<in> Path ` set (mediaList s))
     \<and> s' = (if \<exists>a\<in>set fetches. downloaded a then scanMedia s d' else s)
     \<and> (\<forall>p b. fs_lookup d p = Some (File b) \<and> p \<notin> Path ` set (mediaList s)
            \<longrightarrow> fs_lookup d' p = Some (File b))"
proof -
  define st0 where "st0 = \<lparr>disk = d, localFilesToRemove = map Path (mediaList s), syncCount = 0, trace = []\<rparr>"
  define st1 where "st1 = sync_objects s3 (MediaDir (config s)) (Contents resp) st0"
  define st2 where "st2 = remove_files (localFilesToRemove st1) st1"
  have unf: "syncFromS3 s3 (s, d) =
           (if syncCount st1 > 0 then ((scanMedia s (disk st2), disk st2), trace st2 @ [Rescan])
            else ((s, disk st2), trace st2))"
    using syncFromS3_unfold[OF assms(1,2), of d] by (simp add: st0_def st1_def st2_def)
  obtain fetches where f: "trace st1 = fetches"
    "map fetched_key fetches = map Some (List.map_filter Key (Contents resp))"
    "syncCount st1 = length (filter downloaded fetches)"
    using sync_objects_trace[of s3 "MediaDir (config s)" "Contents resp" st0]
    by (auto simp: st1_def st0_def)
  obtain removals where r: "trace st2 = fetches @ removals"
    "map removed_path removals = map Some (localFilesToRemove st1)"
    using remove_files_trace[of "localFilesToRemove st1" st1] f(1) by (auto simp: st2_def)
  have cnt: "syncCount st1 > 0 \<longleftrightarrow> (\<exists>a\<in>set fetches. downloaded a)"
    by (simp add: f(3) filter_empty_conv length_greater_0_conv)
  have sub: "set (localFilesToRemove st1) \<subseteq> Path ` set (mediaList s)"
    using sync_objects_localFilesToRemove[of s3 "MediaDir (config s)" "Contents resp" st0]
    by (auto simp: st1_def st0_def)
  have rem: "\<forall>a\<in>set removals. \<exists>p e. a = Remove p e \<and> p \<in> Path ` set (mediaList s)"
  proof
    fix a assume a: "a \<in> set removals"
    then have "removed_path a \<in> Some ` set (localFilesToRemove st1)"
      using r(2) by (metis image_eqI set_map)
    then show "\<exists>p e. a = Remove p e \<and> p \<in> Path ` set (mediaList s)"
      using sub by (cases a) auto
  qed
  have files: "\<forall>p b. fs_lookup d p = Some (File b) \<and> p \<notin> Path ` set (mediaList s)
            \<longrightarrow> fs_lookup (disk st2) p = Some (File b)"
  proof (intro allI impI)
    fix p b assume pb: "fs_lookup d p = Some (File b) \<and> p \<notin> Path ` set (mediaList s)"
    then have "fs_lookup (disk st1) p = Some (File b)"
      unfolding st1_def by (intro sync_objects_preserves_File) (simp add: st0_def)
    then show "fs_lookup (disk st2) p = Some (File b)"
      unfolding st2_def using pb sub by (intro remove_files_preserves_File) auto
  qed
  have "acts = fetches @ removals @ (if \<exists>a\<in>set fetches. downloaded a then [Rescan] else [])"
    "s' = (if \<exists>a\<in>set fetches. downloaded a then scanMedia s d' else s)" "d' = disk st2"
    using assms(3) unf cnt r(1) by (auto split: if_splits)
  then show ?thesis using f(2) rem files by blast
qed

lemma fetched_key_Some_is_fetch: "map fetched_key as = map Some ks \<Longrightarrow> \<forall>a\<in>set as. is_fetch a"
proof (induction as arbitrary: ks)
  case Nil
  then show ?case by simp
next
  case (Cons a as)
  then obtain k ks' where "ks = k # ks'" by (cases ks) auto
  then show ?case using Cons by (cases a) auto
qed

lemma syncFromS3_cases [consumes 1, case_names idle cycle]:
  assumes "syncFromS3 s3 (s, d) = ((s', d'), acts)"
  obtains "\<not> s3Client s \<or> (\<exists>err. s3_ListObjectsV2 s3 = Inl err)" "acts = []" "s' = s" "d' = d"
  | resp where "s3Client s" "s3_ListObjectsV2 s3 = Inr resp"
proof (cases "s3Client s \<and> (\<exists>resp. s3_ListObjectsV2 s3 = Inr resp)")
  case False
  then have no: "\<not> s3Client s \<or> (\<exists>err. s3_ListObjectsV2 s3 = Inl err)"
    by (cases "s3_ListObjectsV2 s3") auto
  then have "syncFromS3 s3 (s, d) = ((s, d), [])" by (rule syncFromS3_no_cycle)
  then have "acts = []" "s' = s" "d' = d" using assms by simp_all
  then show ?thesis using that(1) no by blast
next
  case True
  then show ?thesis using that(2) by blast
qed

text \<open>The keys a cycle fetches are the keys of the first page of the listing.\<close>

lemma map_filter_append: "List.map_filter f (xs @ ys) = List.map_filter f xs @ List.map_filter f ys"
  by (simp add: List.map_filter_def)

lemma map_filter_map_Some: "map f xs = map Some ks \<Longrightarrow> List.map_filter f xs = ks"
proof (induction xs arbitrary: ks)
  case Nil
  then show ?case by (simp add: List.map_filter_simps)
next
  case (Cons x xs)
  then obtain k ks' where "ks = k # ks'" by (cases ks) auto
  then show ?case using Cons by (auto simp: List.map_filter_simps)
qed

lemma set_map_filter: "k \<in> set (List.map_filter f xs) \<longleftrightarrow> Some k \<in> f ` set xs"
  by (induction xs) (auto simp: List.map_filter_simps split: option.splits)

lemma map_filter_all_None: "(\<forall>x\<in>set xs. f x = None) \<Longrightarrow> List.map_filter f xs = []"
  by (induction xs) (auto simp: List.map_filter_simps)

lemma ListObjectsV2_keys:
  "\<not> list_fails s3 \<Longrightarrow> \<exists>resp. s3_ListObjectsV2 s3 = Inr resp
      \<and> List.map_filter Key (Contents resp) = map fst (take 1000 (objects s3))"
proof -
  assume "\<not> list_fails s3"
  moreover have "List.map_filter Key (map (\<lambda>(k, b). \<lparr>Key = Some k, Size = length b\<rparr>) xs) = map fst xs" for xs :: "(string \<times> bytes) list"
    by (induction xs) (auto simp: List.map_filter_simps)
  ultimately show ?thesis by (simp add: s3_ListObjectsV2_def)
qed

lemma syncFromS3_fetched_keys:
  assumes "s3Client s" "\<not> list_fails s3" "syncFromS3 s3 (s, d) = ((s', d'), acts)"
  shows "List.map_filter fetched_key acts = map fst (take 1000 (objects s3))"
proof -
  obtain resp where resp: "s3_ListObjectsV2 s3 = Inr resp"
    "List.map_filter Key (Contents resp) = map fst (take 1000 (objects s3))"
    using ListObjectsV2_keys[OF assms(2)] by blast
  obtain fetches removals where c:
    "acts = fetches @ removals @ (if \<exists>a\<in>set fetches. downloaded a then [Rescan] else [])"
    "map fetched_key fetches = map Some (List.map_filter Key (Contents resp))"
    "\<forall>a\<in>set removals. \<exists>p e. a = Remove p e \<and> p \<in> Path ` set (mediaList s)"
    using syncFromS3_cycle[OF assms(1) resp(1) assms(3)] by blast
  have "List.map_filter fetched_key fetches = List.map_filter Key (Contents resp)"
    using map_filter_map_Some[OF c(2)] .
  moreover have "List.map_filter fetched_key removals = []"
    using c(3) by (intro map_filter_all_None) auto
  moreover have "List.map_filter fetched_key (if \<exists>a\<in>set fetches. downloaded a then [Rescan] else []) = []"
    by (simp add: List.map_filter_simps)
  ultimately show ?thesis using c(1) resp(2) by (simp add: map_filter_append)
qed

section \<open>The claims\<close>

subsection \<open>A failed listing\<close>

text \<open>
  C1. If the listing request fails, the cycle changes nothing: it performs no action (no
  download, no removal, no rescan), the disk is the same, and the server, with its
  published inventory \<open>mediaList\<close>, is the same as before the attempt.
\<close>

theorem syncFromS3_listing_error:
  "s3_ListObjectsV2 s3 = Inl err \<Longrightarrow> syncFromS3 s3 (s, d) = ((s, d), [])"
  by (simp add: syncFromS3_def)

theorem syncFromS3_listing_error_witness:
  "s3_ListObjectsV2 ((ex_s3 [(''a.mp4'', ''AAA'')])\<lparr>list_fails := True\<rparr>) = Inl S3Error \<and>
   syncFromS3 ((ex_s3 [(''a.mp4'', ''AAA'')])\<lparr>list_fails := True\<rparr>)
     (ex_server [ex_media ''old.mp4''], ex_disk [(''old.mp4'', File ''OLD'')])
   = ((ex_server [ex_media ''old.mp4''], ex_disk [(''old.mp4'', File ''OLD'')]), [])"
proof -
  have h: "s3_ListObjectsV2 ((ex_s3 [(''a.mp4'', ''AAA'')])\<lparr>list_fails := True\<rparr>) = Inl S3Error"
    by (simp add: s3_ListObjectsV2_def)
  show ?thesis
    using h syncFromS3_listing_error [OF h] by simp
qed

subsection \<open>What a cycle may remove\<close>

text \<open>
  C3. Every path a cycle hands to \<^verbatim>\<open>os.Remove\<close> is a path of the inventory published when
  the cycle started, and a file on disk whose path is not in that inventory is still
  there, with the same bytes, after the cycle, whatever the remote listing says.
\<close>

theorem syncFromS3_removes_only_inventory:
  assumes "syncFromS3 s3 (s, d) = ((s', d'), acts)"
  shows "(\<forall>p e. Remove p e \<in> set acts \<longrightarrow> p \<in> Path ` set (mediaList s))
       \<and> (\<forall>p b. fs_lookup d p = Some (File b) \<and> p \<notin> Path ` set (mediaList s)
             \<longrightarrow> fs_lookup d' p = Some (File b))"
  using assms
proof (cases rule: syncFromS3_cases)
  case idle
  then show ?thesis by simp
next
  case (cycle resp)
  obtain fetches removals where c:
    "acts = fetches @ removals @ (if \<exists>a\<in>set fetches. downloaded a then [Rescan] else [])"
    "map fetched_key fetches = map Some (List.map_filter Key (Contents resp))"
    "\<forall>a\<in>set removals. \<exists>p e. a = Remove p e \<and> p \<in> Path ` set (mediaList s)"
    "\<forall>p b. fs_lookup d p = Some (File b) \<and> p \<notin> Path ` set (mediaList s)
            \<longrightarrow> fs_lookup d' p = Some (File b)"
    using syncFromS3_cycle[OF cycle assms] by blast
  have "\<forall>a\<in>set fetches. is_fetch a" using fetched_key_Some_is_fetch[OF c(2)] .
  then have "\<forall>p e. Remove p e \<in> set fetches \<longrightarrow> False" by (metis is_fetch.simps(3))
  then have "\<forall>p e. Remove p e \<in> set acts \<longrightarrow> p \<in> Path ` set (mediaList s)"
    using c(1,3) by (auto split: if_splits)
  then show ?thesis using c(4) by blast
qed

theorem syncFromS3_removes_only_inventory_witness:
  "syncFromS3 (ex_s3 [(''a.mp4'', ''AAA'')])
     (ex_server [ex_media ''old.mp4''],
      ex_disk [(''local.mp4'', File ''L''), (''old.mp4'', File ''OLD'')])
   = ((ex_server [ex_media ''a.mp4'', ex_media ''local.mp4''],
       ex_disk [(''local.mp4'', File ''L''), (''a.mp4'', File ''AAA'')]),
      [Download ''a.mp4'' [''srv'', ''media'', ''a.mp4''] None,
       Remove [''srv'', ''media'', ''old.mp4''] None, Rescan])
   \<and> fs_lookup (ex_disk [(''local.mp4'', File ''L''), (''a.mp4'', File ''AAA'')])
         [''srv'', ''media'', ''local.mp4''] = Some (File ''L'')"
proof -
  have h: "syncFromS3 (ex_s3 [(''a.mp4'', ''AAA'')])
     (ex_server [ex_media ''old.mp4''],
      ex_disk [(''local.mp4'', File ''L''), (''old.mp4'', File ''OLD'')])
   = ((ex_server [ex_media ''a.mp4'', ex_media ''local.mp4''],
       ex_disk [(''local.mp4'', File ''L''), (''a.mp4'', File ''AAA'')]),
      [Download ''a.mp4'' [''srv'', ''media'', ''a.mp4''] None,
       Remove [''srv'', ''media'', ''old.mp4''] None, Rescan])"
    by code_simp
  have pre: "fs_lookup (ex_disk [(''local.mp4'', File ''L''), (''old.mp4'', File ''OLD'')])
               [''srv'', ''media'', ''local.mp4''] = Some (File ''L'')
           \<and> [''srv'', ''media'', ''local.mp4''] \<notin> Path ` set (mediaList (ex_server [ex_media ''old.mp4'']))"
    by code_simp
  from syncFromS3_removes_only_inventory [OF h] pre
  have "fs_lookup (ex_disk [(''local.mp4'', File ''L''), (''a.mp4'', File ''AAA'')])
         [''srv'', ''media'', ''local.mp4''] = Some (File ''L'')"
    by blast
  with h show ?thesis by blast
qed

subsection \<open>Errors during the scan\<close>

text \<open>
  C5 says that an error on one entry makes the scan skip that entry and go on, and that
  only a failure of the walk at the top publishes a partial list. The callback of
  \<^verbatim>\<open>scanMedia\<close> returns every error it is given (\<^verbatim>\<open>if err != nil { return err }\<close>), and
  \<^verbatim>\<open>filepath.Walk\<close> stops at the first error a callback returns. With an entry \<^verbatim>\<open>a.mp4\<close>
  that cannot be examined, the walk ends there: the file \<^verbatim>\<open>b.mp4\<close> after it is on disk, in
  order, and is not listed, although it is listed when \<^verbatim>\<open>a.mp4\<close> is absent.
\<close>

theorem scanMedia_entry_error_counterexample:
  "fs_lookup c5_disk [''srv'', ''media'', ''b.mp4''] = Some (File ''B'')
   \<and> scanMedia_walk (ex_server []) c5_disk = ([], Some PathError)
   \<and> mediaList (scanMedia (ex_server []) c5_disk) = []
   \<and> mediaList (scanMedia (ex_server []) (ex_disk [(''b.mp4'', File ''B'')])) = [ex_media ''b.mp4'']"
  by code_simp

text \<open>
  C5, amended. The first error met during the walk (the root or an entry cannot be
  examined, a directory cannot be read) stops the walk: the media files collected are
  those among the visits before that error, in the order of the walk, nothing after it is
  collected, and the error is the result of the walk. \<^verbatim>\<open>scanMedia\<close> publishes the list
  collected up to that point, sorted by \<^verbatim>\<open>sort.Slice\<close>.
\<close>

theorem scanMedia_stops_at_first_error:
  "scanMedia_walk s d =
     (List.map_filter (media_of (MediaDir (config s)))
        (takeWhile visit_ok (root_visits d (MediaDir (config s)))),
      case dropWhile visit_ok (root_visits d (MediaDir (config s))) of
        [] \<Rightarrow> None
      | v # _ \<Rightarrow> Some (visit_error v))
   \<and> mediaList (scanMedia s d) = sort_Slice Name (fst (scanMedia_walk s d))"
  by (simp add: scanMedia_walk_collect collect_takeWhile scanMedia_def split: prod.splits)

theorem scanMedia_stops_at_first_error_witness:
  "takeWhile visit_ok (root_visits c5_disk (MediaDir (config (ex_server []))))
     = [([''srv'', ''media''], Some \<lparr>fi_Name = ''media'', fi_IsDir = True\<rparr>, None)]
   \<and> scanMedia_walk (ex_server []) c5_disk = ([], Some PathError)"
proof -
  have v: "takeWhile visit_ok (root_visits c5_disk (MediaDir (config (ex_server []))))
     = [([''srv'', ''media''], Some \<lparr>fi_Name = ''media'', fi_IsDir = True\<rparr>, None)]"
    by code_simp
  have d: "dropWhile visit_ok (root_visits c5_disk (MediaDir (config (ex_server []))))
     = [([''srv'', ''media'', ''a.mp4''], None, Some PathError),
        ([''srv'', ''media'', ''b.mp4''], Some \<lparr>fi_Name = ''b.mp4'', fi_IsDir = False\<rparr>, None)]"
    by code_simp
  have m: "List.map_filter (media_of (MediaDir (config (ex_server []))))
      [([''srv'', ''media''], Some \<lparr>fi_Name = ''media'', fi_IsDir = True\<rparr>, None)] = []"
    by code_simp
  have "scanMedia_walk (ex_server []) c5_disk = ([], Some PathError)"
    using scanMedia_stops_at_first_error [of "ex_server []" c5_disk, THEN conjunct1]
    by (simp only: v d m list.case visit_error.simps)
  with v show ?thesis by (rule conjI)
qed

subsection \<open>Downloads before removals\<close>

text \<open>
  C6. The actions of a cycle are its fetches (one per key of the listing, in listing
  order: the key is found on disk or its download is attempted) followed by the rest;
  no removal stands among the fetches and no fetch after them. So every key of the
  listing has been processed before the first \<^verbatim>\<open>os.Remove\<close>.
\<close>

theorem syncFromS3_fetches_before_removals:
  assumes "syncFromS3 s3 (s, d) = ((s', d'), acts)"
  shows "\<exists>fetches rest. acts = fetches @ rest
       \<and> (\<forall>a\<in>set fetches. is_fetch a) \<and> (\<forall>a\<in>set rest. \<not> is_fetch a)
       \<and> (\<forall>resp. s3Client s \<and> s3_ListObjectsV2 s3 = Inr resp
             \<longrightarrow> map fetched_key fetches = map Some (List.map_filter Key (Contents resp)))"
  using assms
proof (cases rule: syncFromS3_cases)
  case idle
  then show ?thesis by (intro exI[of _ "[]"]) auto
next
  case (cycle resp)
  obtain fetches removals where c:
    "acts = fetches @ removals @ (if \<exists>a\<in>set fetches. downloaded a then [Rescan] else [])"
    "map fetched_key fetches = map Some (List.map_filter Key (Contents resp))"
    "\<forall>a\<in>set removals. \<exists>p e. a = Remove p e \<and> p \<in> Path ` set (mediaList s)"
    using syncFromS3_cycle[OF cycle assms] by blast
  have f: "\<forall>a\<in>set fetches. is_fetch a" using fetched_key_Some_is_fetch[OF c(2)] .
  have r: "\<forall>a\<in>set (removals @ (if \<exists>a\<in>set fetches. downloaded a then [Rescan] else [])). \<not> is_fetch a"
    using c(3) by (auto split: if_splits)
  show ?thesis
    using c(1,2) f r cycle(2)
    by (intro exI[of _ fetches] exI[of _ "removals @ (if \<exists>a\<in>set fetches. downloaded a then [Rescan] else [])"])
       auto
qed

theorem syncFromS3_fetches_before_removals_witness:
  "syncFromS3 (ex_s3 [(''a.mp4'', ''AAA''), (''b.mp4'', ''BB'')])
     (ex_server [ex_media ''b.mp4'', ex_media ''old.mp4''],
      ex_disk [(''b.mp4'', File ''BB''), (''old.mp4'', File ''OLD'')])
   = ((ex_server [ex_media ''a.mp4'', ex_media ''b.mp4''],
       ex_disk [(''b.mp4'', File ''BB''), (''a.mp4'', File ''AAA'')]),
      [Download ''a.mp4'' [''srv'', ''media'', ''a.mp4''] None,
       Present ''b.mp4'' [''srv'', ''media'', ''b.mp4''],
       Remove [''srv'', ''media'', ''old.mp4''] None, Rescan])
   \<and> (\<exists>fetches rest.
         [Download ''a.mp4'' [''srv'', ''media'', ''a.mp4''] None,
          Present ''b.mp4'' [''srv'', ''media'', ''b.mp4''],
          Remove [''srv'', ''media'', ''old.mp4''] None, Rescan] = fetches @ rest
       \<and> map fetched_key fetches = [Some ''a.mp4'', Some ''b.mp4'']
       \<and> list_all (\<lambda>a. \<not> is_fetch a) rest)"
proof -
  have h: "syncFromS3 (ex_s3 [(''a.mp4'', ''AAA''), (''b.mp4'', ''BB'')])
     (ex_server [ex_media ''b.mp4'', ex_media ''old.mp4''],
      ex_disk [(''b.mp4'', File ''BB''), (''old.mp4'', File ''OLD'')])
   = ((ex_server [ex_media ''a.mp4'', ex_media ''b.mp4''],
       ex_disk [(''b.mp4'', File ''BB''), (''a.mp4'', File ''AAA'')]),
      [Download ''a.mp4'' [''srv'', ''media'', ''a.mp4''] None,
       Present ''b.mp4'' [''srv'', ''media'', ''b.mp4''],
       Remove [''srv'', ''media'', ''old.mp4''] None, Rescan])"
    by code_simp
  have l: "s3Client (ex_server [ex_media ''b.mp4'', ex_media ''old.mp4''])
         \<and> s3_ListObjectsV2 (ex_s3 [(''a.mp4'', ''AAA''), (''b.mp4'', ''BB'')])
             = Inr \<lparr>Contents = [\<lparr>Key = Some ''a.mp4'', Size = 3\<rparr>, \<lparr>Key = Some ''b.mp4'', Size = 2\<rparr>],
                    IsTruncated = False\<rparr>"
    by code_simp
  from syncFromS3_fetches_before_removals [OF h]
  obtain fetches rest where fr:
    "[Download ''a.mp4'' [''srv'', ''media'', ''a.mp4''] None,
      Present ''b.mp4'' [''srv'', ''media'', ''b.mp4''],
      Remove [''srv'', ''media'', ''old.mp4''] None, Rescan] = fetches @ rest
     \<and> (\<forall>a\<in>set fetches. is_fetch a) \<and> (\<forall>a\<in>set rest. \<not> is_fetch a)
     \<and> (\<forall>resp. s3Client (ex_server [ex_media ''b.mp4'', ex_media ''old.mp4''])
         \<and> s3_ListObjectsV2 (ex_s3 [(''a.mp4'', ''AAA''), (''b.mp4'', ''BB'')]) = Inr resp
       \<longrightarrow> map fetched_key fetches = map Some (List.map_filter Key (Contents resp)))"
    by (elim exE)
  note f1 = fr[THEN conjunct1]
  note f3 = fr[THEN conjunct2, THEN conjunct2, THEN conjunct1]
  note f4 = fr[THEN conjunct2, THEN conjunct2, THEN conjunct2, rule_format, OF l]
  have k: "map fetched_key fetches = [Some ''a.mp4'', Some ''b.mp4'']"
    using f4 by (simp add: List.map_filter_simps)
  have r: "list_all (\<lambda>a. \<not> is_fetch a) rest"
    using f3 by (simp only: list_all_iff)
  have ex: "\<exists>fetches rest.
         [Download ''a.mp4'' [''srv'', ''media'', ''a.mp4''] None,
          Present ''b.mp4'' [''srv'', ''media'', ''b.mp4''],
          Remove [''srv'', ''media'', ''old.mp4''] None, Rescan] = fetches @ rest
       \<and> map fetched_key fetches = [Some ''a.mp4'', Some ''b.mp4'']
       \<and> list_all (\<lambda>a. \<not> is_fetch a) rest"
    by (rule exI[of _ fetches], rule exI[of _ rest]) (intro conjI f1 k r)
  show ?thesis by (rule conjI[OF h ex])
qed

subsection \<open>Where a download is written\<close>

text \<open>
  C7 says that the fetcher writes to a temporary path and renames it into place on
  success, so that a transfer that fails half way leaves no truncated file at the final
  path. The program has no temporary path and no rename: \<^verbatim>\<open>downloadFromS3\<close> calls
  \<^verbatim>\<open>os.Create(localPath)\<close> and copies the body into that file. A stream of six bytes that
  breaks after two leaves the two bytes at the final path.
\<close>

theorem downloadFromS3_truncated_counterexample:
  "map_of (objects c7_s3) ''a.mp4'' = Some ''AAAAAA''
   \<and> downloadFromS3 c7_s3 (ex_disk []) ''a.mp4'' [''srv'', ''media'', ''a.mp4'']
       = (ex_disk [(''a.mp4'', File ''AA'')], Some CopyError)
   \<and> fs_lookup (ex_disk [(''a.mp4'', File ''AA'')]) [''srv'', ''media'', ''a.mp4''] = Some (File ''AA'')"
  by code_simp

text \<open>
  C7, amended. \<^verbatim>\<open>downloadFromS3\<close> writes to the final path itself. When it returns no
  error, the final path holds the whole object. When the directory and the file could be
  created and the stream breaks after \<open>n\<close> bytes, it returns the error and the final path
  holds those \<open>n\<close> bytes. Every file at another path is the same before and after: no
  temporary file is made.
\<close>

theorem downloadFromS3_writes_final_path:
  assumes "downloadFromS3 s3 d key lp = (d', err)"
  shows "(err = None \<longrightarrow> (\<exists>b. map_of (objects s3) key = Some b \<and> fs_lookup d' lp = Some (File b)))
       \<and> (\<forall>n b d1 d2. map_of (objects s3) key = Some b
              \<and> map_of (faults s3) key = Some (StreamFault n)
              \<and> os_MkdirAll d (filepath_Dir lp) = Inr d1 \<and> os_Create d1 lp = Inr d2
            \<longrightarrow> err = Some CopyError \<and> fs_lookup d' lp = Some (File (take n b)))
       \<and> (\<forall>p b. p \<noteq> lp \<longrightarrow> (fs_lookup d' p = Some (File b) \<longleftrightarrow> fs_lookup d p = Some (File b)))"
proof (intro conjI allI impI)
  assume ok: "err = None"
  then obtain d1 resp d2 where st:
    "os_MkdirAll d (filepath_Dir lp) = Inr d1" "s3_GetObject s3 key = Inr resp"
    "os_Create d1 lp = Inr d2" "io_Copy d2 lp resp = (d', None)"
    using assms by (auto simp: downloadFromS3_def split: sum.splits)
  from st(4) have w: "file_Write d2 lp (body_data resp) = Inr d'" "\<not> read_error resp"
    by (auto simp: io_Copy_def split: sum.splits if_splits)
  from st(2) w(2) obtain b where b: "map_of (objects s3) key = Some b" "body_data resp = b"
    by (auto simp: s3_GetObject_def split: option.splits fault.splits)
  have "fs_lookup d' lp = Some (File b)"
    using file_Write_lookup[OF w(1)] os_Create_lookup[OF st(3)] b(2) by auto
  then show "\<exists>b. map_of (objects s3) key = Some b \<and> fs_lookup d' lp = Some (File b)"
    using b(1) by blast
next
  fix n b d1 d2
  assume a: "map_of (objects s3) key = Some b \<and> map_of (faults s3) key = Some (StreamFault n)
      \<and> os_MkdirAll d (filepath_Dir lp) = Inr d1 \<and> os_Create d1 lp = Inr d2"
  then have g: "s3_GetObject s3 key = Inr \<lparr>body_data = take n b, read_error = True\<rparr>"
    by (simp add: s3_GetObject_def)
  have e: "fs_lookup d2 lp = Some (File [])" using a os_Create_lookup by blast
  have "lp \<noteq> []" using a os_Create_nonroot by blast
  then obtain d3 where w: "file_Write d2 lp (take n b) = Inr d3"
    using file_Write_succeeds[OF e] by blast
  have "downloadFromS3 s3 d key lp = (d3, Some CopyError)"
    using a g w by (simp add: downloadFromS3_def io_Copy_def)
  then have "d' = d3" "err = Some CopyError" using assms by simp_all
  moreover have "fs_lookup d3 lp = Some (File (take n b))"
    using file_Write_lookup[OF w] e by auto
  ultimately show "err = Some CopyError" "fs_lookup d' lp = Some (File (take n b))" by simp_all
next
  fix p b assume "p \<noteq> lp"
  then show "fs_lookup d' p = Some (File b) \<longleftrightarrow> fs_lookup d p = Some (File b)"
    using downloadFromS3_other_files[OF assms] by blast
qed

theorem downloadFromS3_writes_final_path_witness:
  "downloadFromS3 c7_s3 (ex_disk []) ''a.mp4'' [''srv'', ''media'', ''a.mp4'']
       = (ex_disk [(''a.mp4'', File ''AA'')], Some CopyError)
   \<and> fs_lookup (ex_disk [(''a.mp4'', File ''AA'')]) [''srv'', ''media'', ''a.mp4'']
       = Some (File (take 2 ''AAAAAA''))"
proof -
  have h: "downloadFromS3 c7_s3 (ex_disk []) ''a.mp4'' [''srv'', ''media'', ''a.mp4'']
       = (ex_disk [(''a.mp4'', File ''AA'')], Some CopyError)"
    by code_simp
  have pre: "map_of (objects c7_s3) ''a.mp4'' = Some ''AAAAAA''
      \<and> map_of (faults c7_s3) ''a.mp4'' = Some (StreamFault 2)
      \<and> os_MkdirAll (ex_disk []) (filepath_Dir [''srv'', ''media'', ''a.mp4'']) = Inr (ex_disk [])
      \<and> os_Create (ex_disk []) [''srv'', ''media'', ''a.mp4''] = Inr (ex_disk [(''a.mp4'', File [])])"
    by code_simp
  note t = downloadFromS3_writes_final_path [OF h, THEN conjunct2, THEN conjunct1, rule_format, OF pre]
  show ?thesis by (rule conjI[OF h t[THEN conjunct2]])
qed

subsection \<open>How much of the bucket a cycle sees\<close>

text \<open>
  C8 says that the key set the reconciler uses is the full set of keys of the bucket,
  also when the store paginates. \<^verbatim>\<open>syncFromS3\<close> sends one \<^verbatim>\<open>ListObjectsV2\<close> request and
  reads \<^verbatim>\<open>resp.Contents\<close>; it never looks at \<^verbatim>\<open>IsTruncated\<close> or asks for the next page. In
  a bucket of 1001 objects the last key is in the bucket and the cycle never fetches it.
\<close>

theorem syncFromS3_first_page_counterexample:
  "replicate 1001 CHR ''k'' \<in> fst ` set (objects c8_s3)
   \<and> Some (replicate 1001 CHR ''k'') \<notin> fetched_key ` set (snd (syncFromS3 c8_s3 (ex_server [], ex_disk [])))"
proof (rule conjI)
  have "replicate 1001 CHR ''k'' = fst (replicate (Suc 1000) CHR ''k'', [])" by simp
  moreover have "(replicate (Suc 1000) CHR ''k'', []) \<in> set (objects c8_s3)"
    unfolding c8_s3_def ex_s3_def by (simp del: replicate_Suc replicate.simps) 
  ultimately show "replicate 1001 CHR ''k'' \<in> fst ` set (objects c8_s3)"
    by (metis image_eqI)
next
  obtain s' d' acts where r: "syncFromS3 c8_s3 (ex_server [], ex_disk []) = ((s', d'), acts)"
    by (metis prod.exhaust)
  have "s3Client (ex_server [])" "\<not> list_fails c8_s3"
    by (simp_all add: ex_server_def c8_s3_def ex_s3_def)
  then have k: "List.map_filter fetched_key acts = map fst (take 1000 (objects c8_s3))"
    using syncFromS3_fetched_keys r by blast
  have "take 1000 (objects c8_s3) = map (\<lambda>i. (replicate (Suc i) CHR ''k'', [])) [0..<1000]"
    unfolding c8_s3_def ex_s3_def by (simp add: take_map del: replicate_Suc replicate.simps)
  then have "set (List.map_filter fetched_key acts) = (\<lambda>i. replicate (Suc i) CHR ''k'') ` {0..<1000}"
    using k by (simp add: image_image comp_def del: replicate_Suc replicate.simps)
  moreover have "replicate 1001 CHR ''k'' \<notin> (\<lambda>i. replicate (Suc i) CHR ''k'') ` {0..<1000}"
  proof
    assume "replicate 1001 CHR ''k'' \<in> (\<lambda>i. replicate (Suc i) CHR ''k'') ` {0..<1000}"
    then obtain i where "i < 1000" "replicate 1001 CHR ''k'' = replicate (Suc i) CHR ''k''" by auto
    then have "length (replicate 1001 CHR ''k'') = length (replicate (Suc i) CHR ''k'')" by metis
    then show False using \<open>i < 1000\<close> by (simp del: replicate_Suc replicate.simps)
  qed
  ultimately have "replicate 1001 CHR ''k'' \<notin> set (List.map_filter fetched_key acts)" by simp
  then have "Some (replicate 1001 CHR ''k'') \<notin> fetched_key ` set acts"
    by (simp add: set_map_filter)
  then show "Some (replicate 1001 CHR ''k'') \<notin> fetched_key ` set (snd (syncFromS3 c8_s3 (ex_server [], ex_disk [])))"
    using r by simp
qed

text \<open>
  C8, amended. After a listing that succeeds, the keys a cycle fetches (finds on disk or
  tries to download) are the keys of the first page of the listing, in order: the first
  1000 keys of the bucket. They are all the keys of the bucket when it holds at most 1000
  objects.
\<close>

theorem syncFromS3_sees_first_page:
  assumes "s3Client s" "\<not> list_fails s3" "syncFromS3 s3 (s, d) = ((s', d'), acts)"
  shows "List.map_filter fetched_key acts = map fst (take 1000 (objects s3))
       \<and> (length (objects s3) \<le> 1000 \<longrightarrow> List.map_filter fetched_key acts = map fst (objects s3))"
  using syncFromS3_fetched_keys[OF assms] by simp

theorem syncFromS3_sees_first_page_witness:
  "syncFromS3 (ex_s3 [(''a.mp4'', ''AAA'')]) (ex_server [], ex_disk [])
     = ((ex_server [ex_media ''a.mp4''], ex_disk [(''a.mp4'', File ''AAA'')]),
        [Download ''a.mp4'' [''srv'', ''media'', ''a.mp4''] None, Rescan])
   \<and> List.map_filter fetched_key [Download ''a.mp4'' [''srv'', ''media'', ''a.mp4''] None, Rescan]
       = map fst (objects (ex_s3 [(''a.mp4'', ''AAA'')]))"
proof -
  have h: "syncFromS3 (ex_s3 [(''a.mp4'', ''AAA'')]) (ex_server [], ex_disk [])
     = ((ex_server [ex_media ''a.mp4''], ex_disk [(''a.mp4'', File ''AAA'')]),
        [Download ''a.mp4'' [''srv'', ''media'', ''a.mp4''] None, Rescan])"
    by code_simp
  have c: "s3Client (ex_server [])" by (simp add: ex_server_def)
  have l: "\<not> list_fails (ex_s3 [(''a.mp4'', ''AAA'')])" by (simp add: ex_s3_def)
  have n: "length (objects (ex_s3 [(''a.mp4'', ''AAA'')])) \<le> 1000" by (simp add: ex_s3_def)
  note t = syncFromS3_sees_first_page [OF c l h, THEN conjunct2, rule_format, OF n]
  show ?thesis by (rule conjI[OF h t])
qed

subsection \<open>When the inventory is republished\<close>

text \<open>
  C10. A cycle rescans exactly when one of its downloads succeeded; otherwise it leaves
  the server as it was. So after a cycle that removes files and downloads nothing, the
  published inventory is unchanged, and every path the cycle removed is still listed.
\<close>

theorem syncFromS3_republishes_iff_downloaded:
  assumes "syncFromS3 s3 (s, d) = ((s', d'), acts)"
  shows "s' = (if \<exists>a\<in>set acts. downloaded a then scanMedia s d' else s)
       \<and> (Rescan \<in> set acts \<longleftrightarrow> (\<exists>a\<in>set acts. downloaded a))
       \<and> ((\<forall>a\<in>set acts. \<not> downloaded a) \<longrightarrow>
            mediaList s' = mediaList s
          \<and> (\<forall>p e. Remove p e \<in> set acts \<longrightarrow> p \<in> Path ` set (mediaList s')))"
  using assms
proof (cases rule: syncFromS3_cases)
  case idle
  then show ?thesis by simp
next
  case (cycle resp)
  obtain fetches removals where c:
    "acts = fetches @ removals @ (if \<exists>a\<in>set fetches. downloaded a then [Rescan] else [])"
    "map fetched_key fetches = map Some (List.map_filter Key (Contents resp))"
    "\<forall>a\<in>set removals. \<exists>p e. a = Remove p e \<and> p \<in> Path ` set (mediaList s)"
    "s' = (if \<exists>a\<in>set fetches. downloaded a then scanMedia s d' else s)"
    using syncFromS3_cycle[OF cycle assms] by blast
  have f: "\<forall>a\<in>set fetches. is_fetch a" using fetched_key_Some_is_fetch[OF c(2)] .
  have nr: "\<forall>a\<in>set removals. \<not> downloaded a \<and> a \<noteq> Rescan" using c(3) by auto
  have nf: "Rescan \<notin> set fetches" "\<forall>p e. Remove p e \<notin> set fetches" using f by auto
  have dl: "(\<exists>a\<in>set acts. downloaded a) \<longleftrightarrow> (\<exists>a\<in>set fetches. downloaded a)"
    using c(1) nr by (auto split: if_splits)
  have rs: "Rescan \<in> set acts \<longleftrightarrow> (\<exists>a\<in>set fetches. downloaded a)"
    using c(1) nr nf by (auto split: if_splits)
  have rm: "\<forall>p e. Remove p e \<in> set acts \<longrightarrow> p \<in> Path ` set (mediaList s)"
    using c(1,3) nf by (auto split: if_splits)
  show ?thesis using c(4) dl rs rm by auto
qed

theorem syncFromS3_republishes_iff_downloaded_witness:
  "syncFromS3 (ex_s3 [])
     (ex_server [ex_media ''old.mp4''], ex_disk [(''old.mp4'', File ''OLD'')])
   = ((ex_server [ex_media ''old.mp4''], ex_disk []),
      [Remove [''srv'', ''media'', ''old.mp4''] None])
   \<and> fs_lookup (ex_disk []) [''srv'', ''media'', ''old.mp4''] = None
   \<and> mediaList (ex_server [ex_media ''old.mp4'']) = [ex_media ''old.mp4'']
   \<and> [''srv'', ''media'', ''old.mp4''] \<in> Path ` set (mediaList (ex_server [ex_media ''old.mp4'']))"
proof -
  have h: "syncFromS3 (ex_s3 [])
     (ex_server [ex_media ''old.mp4''], ex_disk [(''old.mp4'', File ''OLD'')])
   = ((ex_server [ex_media ''old.mp4''], ex_disk []),
      [Remove [''srv'', ''media'', ''old.mp4''] None])"
    by code_simp
  have gone: "fs_lookup (ex_disk []) [''srv'', ''media'', ''old.mp4''] = None"
    by code_simp
  have ml: "mediaList (ex_server [ex_media ''old.mp4'']) = [ex_media ''old.mp4'']"
    by (simp add: ex_server_def)
  from syncFromS3_republishes_iff_downloaded [OF h]
  have "[''srv'', ''media'', ''old.mp4''] \<in> Path ` set (mediaList (ex_server [ex_media ''old.mp4'']))"
    by simp
  with h gone ml show ?thesis by blast
qed

end
